theory Spec2Isabelle
  imports
    Complex_Main
    "HOL-Library.AList"
    "HOL-Library.Multiset"
    "HOL-Library.List_Lexorder"
    "HOL-Library.Product_Lexorder"
    "HOL-Library.Char_ord"
    "HOL-Library.Log_Nat"
    "HOL-Library.Word"
begin

section \<open>The non-realtime session of supriya: data model\<close>

text \<open>
  The development embeds \<^verbatim>\<open>supriya/tools/nonrealtimetools/Session.py\<close>,
  \<^verbatim>\<open>supriya/tools/ugentools/MultiOutUGen.py\<close> and
  \<^verbatim>\<open>supriya/library/audiolib/UGenArray.py\<close>.

  Python exceptions are values of the type \<open>error\<close>; a function that can raise returns
  \<open>error + 'a\<close> with \<open>Inl\<close> for the exception.
\<close>

datatype error =
  ValueError | KeyError | AssertionError | AllocationError | StructError | OverflowError

type_synonym byte = "8 word"

datatype calculation_rate = AUDIO | CONTROL | SCALAR | TRIGGER

text \<open>
  Modelled from the spec: the class SynthDef is not part of the sources at hand. A definition
  has an optional explicit name and an anonymous name, the content hash of its compiled
  graph (\<^verbatim>\<open>x.anonymous_name\<close> in \<^verbatim>\<open>_collect_synthdef_requests\<close>); its identity is
  the pair of both. \<open>actual_name\<close> is the name the server knows it by:
  "identity (explicit name or content hash)".
\<close>

record synthdef =
  name :: "string option"
  anonymous_name :: string

definition actual_name :: "synthdef \<Rightarrow> string" where
  "actual_name sd = (case name sd of None \<Rightarrow> anonymous_name sd | Some n \<Rightarrow> n)"

text \<open>
  Modelled from the spec: the classes Bus and BusGroup are not part of the sources at hand.
  Python objects are compared by identity, so every object carries a unique identifier.
  A bus knows its calculation rate, the group that owns it (\<^verbatim>\<open>bus.bus_group\<close>, possibly
  \<^verbatim>\<open>None\<close>) and its recorded \<open>(offset, value)\<close> events (\<^verbatim>\<open>bus._events\<close>);
  \<^verbatim>\<open>len(bus_group)\<close> is \<open>bus_count\<close>.
\<close>

record bus_group =
  bus_group_uid :: nat
  bus_count :: nat

datatype bus_uid = AudioOutputBus nat | AudioInputBus nat | SessionBus nat

record bus =
  bus_uid :: bus_uid
  calculation_rate :: calculation_rate
  bus_group :: "bus_group option"
  events :: "(rat \<times> real) list"

text \<open>
  Modelled from the spec and from the example output in the docstring of the class Session:
  the class Synth is not part of the sources at hand. A synth is a timespan
  \<open>[start_offset, stop_offset)\<close> whose stop may be unbounded (\<open>None\<close> stands for
  \<^verbatim>\<open>Infinity\<close>); it refers to a definition, has initial parameter overrides
  (\<^verbatim>\<open>**synth_kwargs\<close>) and overrides recorded at later offsets
  (\<^verbatim>\<open>with session.at(7.5): synth_a['frequency'] = 880\<close>).
\<close>

record synth =
  synth_uid :: nat
  start_offset :: rat
  stop_offset :: "rat option"
  synthdef :: synthdef
  synth_kwargs :: "(string \<times> real) list"
  synth_events :: "(rat \<times> string \<times> real) list"

text \<open>
  The session (\<^verbatim>\<open>__slots__\<close> of the class). \<open>buses\<close> is the key list of the
  \<^verbatim>\<open>OrderedDict\<close> \<^verbatim>\<open>_buses\<close>, in insertion order; \<open>synths\<close> holds the timespan
  collection \<^verbatim>\<open>_synths\<close> in declaration order. The two audio bus groups are created by
  \<^verbatim>\<open>__init__\<close> from the channel counts and never change; they are functions of the
  counts below.
\<close>

record session =
  input_count :: nat
  output_count :: nat
  buses :: "bus list"
  synths :: "synth list"

definition Session_init :: "nat \<Rightarrow> nat \<Rightarrow> session" where
  "Session_init input_count' output_count' =
     \<lparr>input_count = input_count', output_count = output_count', buses = [], synths = []\<rparr>"

text \<open>
  Modelled from the spec: the classes AudioInputBusGroup and AudioOutputBusGroup are not part of
  the sources at hand. Each has one audio-rate bus per channel; the group is \<^verbatim>\<open>None\<close> when
  the count is zero.
\<close>

definition audio_output_bus_group :: "session \<Rightarrow> bus list option" where
  "audio_output_bus_group s =
     (if output_count s = 0 then None
      else Some (map (\<lambda>i. \<lparr>bus_uid = AudioOutputBus i, calculation_rate = AUDIO,
                     bus_group = Some \<lparr>bus_group_uid = 0, bus_count = output_count s\<rparr>,
                     events = []\<rparr>) [0..<output_count s]))"

definition audio_input_bus_group :: "session \<Rightarrow> bus list option" where
  "audio_input_bus_group s =
     (if input_count s = 0 then None
      else Some (map (\<lambda>i. \<lparr>bus_uid = AudioInputBus i, calculation_rate = AUDIO,
                     bus_group = Some \<lparr>bus_group_uid = 1, bus_count = input_count s\<rparr>,
                     events = []\<rparr>) [0..<input_count s]))"

text \<open>
  \<^verbatim>\<open>add_bus\<close>, \<^verbatim>\<open>add_bus_group\<close> and \<^verbatim>\<open>add_synth\<close> create a fresh object and register
  it. Identifiers of user bus groups start at 2, after the two audio groups.
\<close>

definition add_bus :: "calculation_rate \<Rightarrow> session \<Rightarrow> session" where
  "add_bus rate s =
     s\<lparr>buses := buses s @
          [\<lparr>bus_uid = SessionBus (length (buses s)), calculation_rate = rate,
            bus_group = None, events = []\<rparr>]\<rparr>"

definition add_bus_group :: "nat \<Rightarrow> calculation_rate \<Rightarrow> session \<Rightarrow> session" where
  "add_bus_group bus_count' rate s =
     s\<lparr>buses := buses s @
          map (\<lambda>i. \<lparr>bus_uid = SessionBus (length (buses s) + i), calculation_rate = rate,
                    bus_group = Some \<lparr>bus_group_uid = 2 + length (buses s),
                                       bus_count = bus_count'\<rparr>,
                    events = []\<rparr>) [0..<bus_count']\<rparr>"

definition add_synth ::
  "rat \<Rightarrow> rat option \<Rightarrow> synthdef \<Rightarrow> (string \<times> real) list \<Rightarrow> session \<Rightarrow> session" where
  "add_synth start stop sd kwargs s =
     s\<lparr>synths := synths s @
          [\<lparr>synth_uid = length (synths s), start_offset = start, stop_offset = stop,
            synthdef = sd, synth_kwargs = kwargs, synth_events = []\<rparr>]\<rparr>"

subsection \<open>Hash containers\<close>

text \<open>
  A Python \<^verbatim>\<open>dict\<close> is an association list with distinct keys, kept in insertion order:
  \<open>AList.update\<close> replaces the value of a present key in place and appends a new key at the
  end. The order in which \<^verbatim>\<open>.items()\<close> or a \<^verbatim>\<open>set\<close> is traversed is a matter of the
  hash values of the keys, which differ from run to run and between interpreter versions.
  The traversal is therefore taken by increasing hash value, equal hashes in insertion order,
  for hash functions that are parameters of the model; the constant hash gives the
  insertion order of newer interpreters, and every rearrangement of distinct keys is the
  traversal of some hash function.
\<close>

record hashing =
  hash_offset :: "rat \<Rightarrow> nat"
  hash_synth :: "synth \<Rightarrow> nat"
  hash_synthdef :: "synthdef \<Rightarrow> nat"

definition items :: "('k \<Rightarrow> nat) \<Rightarrow> ('k \<times> 'v) list \<Rightarrow> ('k \<times> 'v) list" where
  "items h d = sort_key (\<lambda>kv. h (fst kv)) d"

definition set_iter :: "('a \<Rightarrow> nat) \<Rightarrow> 'a list \<Rightarrow> 'a list" where
  "set_iter h xs = sort_key h (remdups xs)"

definition dict_get :: "('k \<times> 'v) list \<Rightarrow> 'k \<Rightarrow> 'v \<Rightarrow> 'v" where
  "dict_get d k dflt = (case map_of d k of None \<Rightarrow> dflt | Some v \<Rightarrow> v)"

definition keys :: "('k \<times> 'v) list \<Rightarrow> 'k set" where
  "keys d = fst ` set d"

text \<open>\<^verbatim>\<open>d.setdefault(k, []).extend(xs)\<close>, and \<^verbatim>\<open>.append(x)\<close> for a singleton.\<close>

definition setdefault_extend :: "'k \<Rightarrow> 'v list \<Rightarrow> ('k \<times> 'v list) list \<Rightarrow> ('k \<times> 'v list) list" where
  "setdefault_extend k xs d = AList.update k (dict_get d k [] @ xs) d"

subsection \<open>Requests and OSC messages\<close>

text \<open>
  Modelled from the spec and from the example output in the docstring of the class Session:
  the request classes of \<^verbatim>\<open>requesttools\<close> and the OSC classes of \<^verbatim>\<open>osctools\<close> are not
  part of the sources at hand. A request is one of the seven prioritized types, a node-free
  request, or of some other type. \<open>to_osc_message\<close> gives the message with its textual
  command, as in the docstring: \<^verbatim>\<open>OscMessage('/s_new', name, 1001, 0, 0, 'frequency', 666)\<close>,
  \<^verbatim>\<open>OscMessage('/n_set', 1000, 'frequency', 880)\<close>, \<^verbatim>\<open>OscMessage('/n_free', 1001, 1002)\<close>.
  The blob of a definition-receive message is the compiled form of the listed definitions, in
  the order listed; the compiler is outside this development, so the blob is kept as that list.
\<close>

datatype request =
    SynthDefReceiveRequest "synthdef list"
  | ControlBusSetRequest "(nat \<times> real) list"
  | GroupNewRequest nat nat nat
  | SynthNewRequest nat synthdef "(string \<times> real) list"
  | NodeMapToAudioBusRequest nat "(string \<times> nat) list"
  | NodeMapToControlBusRequest nat "(string \<times> nat) list"
  | NodeSetRequest nat "(string \<times> real) list"
  | NodeFreeRequest "nat list"
  | OtherRequest string

datatype request_type =
    SynthDefReceiveRequestType
  | ControlBusSetRequestType
  | GroupNewRequestType
  | SynthNewRequestType
  | NodeMapToAudioBusRequestType
  | NodeMapToControlBusRequestType
  | NodeSetRequestType
  | NodeFreeRequestType
  | OtherRequestType string

fun type_of :: "request \<Rightarrow> request_type" where
  "type_of (SynthDefReceiveRequest _) = SynthDefReceiveRequestType"
| "type_of (ControlBusSetRequest _) = ControlBusSetRequestType"
| "type_of (GroupNewRequest _ _ _) = GroupNewRequestType"
| "type_of (SynthNewRequest _ _ _) = SynthNewRequestType"
| "type_of (NodeMapToAudioBusRequest _ _) = NodeMapToAudioBusRequestType"
| "type_of (NodeMapToControlBusRequest _ _) = NodeMapToControlBusRequestType"
| "type_of (NodeSetRequest _ _) = NodeSetRequestType"
| "type_of (NodeFreeRequest _) = NodeFreeRequestType"
| "type_of (OtherRequest t) = OtherRequestType t"

fun node_ids :: "request \<Rightarrow> nat list" where
  "node_ids (NodeFreeRequest ids) = ids"
| "node_ids _ = []"

datatype osc_address = Textual string | Numeric int

datatype osc_argument =
    OscInt int
  | OscFloat real
  | OscString string
  | OscBlob "synthdef list"

datatype osc_message = OscMessage osc_address "osc_argument list"

record osc_bundle =
  timestamp :: real
  contents :: "osc_message list"

fun to_osc_message :: "request \<Rightarrow> osc_message" where
  "to_osc_message (SynthDefReceiveRequest sds) = OscMessage (Textual ''/d_recv'') [OscBlob sds]"
| "to_osc_message (ControlBusSetRequest pairs) =
     OscMessage (Textual ''/c_set'')
       (concat (map (\<lambda>(i, v). [OscInt (int i), OscFloat v]) pairs))"
| "to_osc_message (GroupNewRequest node_id add_action target) =
     OscMessage (Textual ''/g_new'')
       [OscInt (int node_id), OscInt (int add_action), OscInt (int target)]"
| "to_osc_message (SynthNewRequest node_id sd settings) =
     OscMessage (Textual ''/s_new'')
       ([OscString (actual_name sd), OscInt (int node_id), OscInt 0, OscInt 0] @
        concat (map (\<lambda>(k, v). [OscString k, OscFloat v]) settings))"
| "to_osc_message (NodeMapToAudioBusRequest node_id settings) =
     OscMessage (Textual ''/n_mapa'')
       (OscInt (int node_id) # concat (map (\<lambda>(k, b). [OscString k, OscInt (int b)]) settings))"
| "to_osc_message (NodeMapToControlBusRequest node_id settings) =
     OscMessage (Textual ''/n_map'')
       (OscInt (int node_id) # concat (map (\<lambda>(k, b). [OscString k, OscInt (int b)]) settings))"
| "to_osc_message (NodeSetRequest node_id settings) =
     OscMessage (Textual ''/n_set'')
       (OscInt (int node_id) # concat (map (\<lambda>(k, v). [OscString k, OscFloat v]) settings))"
| "to_osc_message (NodeFreeRequest ids) =
     OscMessage (Textual ''/n_free'') (map (\<lambda>i. OscInt (int i)) ids)"
| "to_osc_message (OtherRequest t) = OscMessage (Textual t) []"

subsection \<open>\<^verbatim>\<open>Session._process_requests\<close>\<close>

definition prioritized_request_types :: "request_type list" where
  "prioritized_request_types =
     [SynthDefReceiveRequestType,
      ControlBusSetRequestType,
      GroupNewRequestType,
      SynthNewRequestType,
      NodeMapToAudioBusRequestType,
      NodeMapToControlBusRequestType,
      NodeSetRequestType]"

text \<open>
  \<^verbatim>\<open>requests_by_type.setdefault(type(request), []).append(request)\<close> over all requests
  leaves, under each type, the requests of that type in their original order.
\<close>

definition requests_by_type :: "request list \<Rightarrow> request_type \<Rightarrow> request list" where
  "requests_by_type requests t = filter (\<lambda>r. type_of r = t) requests"

text \<open>
  \<^verbatim>\<open>timestamp = float(offset)\<close>. Offsets are rationals, and \<^verbatim>\<open>float\<close> of a rational is the
  double nearest to it: with \<open>e\<close> the exponent of the rational (at least \<open>-1022\<close>, where the
  subnormal numbers begin), the multiple of \<open>2 ^ (e - 52)\<close> nearest to it, the one with the
  even multiplier when two are equally near. The conversion raises \<^verbatim>\<open>OverflowError\<close> when
  that double would be \<open>2 ^ 1024\<close> or more in magnitude. Two offsets may have the same float.
\<close>

definition round_half_even :: "rat \<Rightarrow> int" where
  "round_half_even x =
     (let f = \<lfloor>x\<rfloor>; d = x - of_int f
      in if d < 1 / 2 then f
         else if 1 / 2 < d then f + 1
         else if even f then f else f + 1)"

text \<open>The exponent of a positive rational \<open>q\<close>: \<open>2 ^ exponent q \<le> q < 2 ^ (exponent q + 1)\<close>.\<close>

definition exponent :: "rat \<Rightarrow> int" where
  "exponent q =
     (let d = bitlen (fst (quotient_of q)) - bitlen (snd (quotient_of q))
      in if 2 powi d \<le> q then d else d - 1)"

definition nearest_double :: "rat \<Rightarrow> rat" where
  "nearest_double q =
     (if q = 0 then 0
      else let ulp = 2 powi (max (exponent \<bar>q\<bar>) (- 1022) - 52)
           in sgn q * of_int (round_half_even (\<bar>q\<bar> / ulp)) * ulp)"

definition float :: "rat \<Rightarrow> error + real" where
  "float q =
     (let x = nearest_double q
      in if 2 ^ 1024 \<le> \<bar>x\<bar> then Inl OverflowError else Inr (of_rat x))"

definition process_requests :: "rat \<Rightarrow> request list \<Rightarrow> error + osc_bundle" where
  "process_requests offset requests =
     (case float offset of
        Inl e \<Rightarrow> Inl e
      | Inr stamp \<Rightarrow>
          (let osc_messages =
                 concat (map (\<lambda>t. map to_osc_message (requests_by_type requests t))
                             prioritized_request_types);
               free_requests = requests_by_type requests NodeFreeRequestType
           in Inr \<lparr>timestamp = stamp,
                   contents =
                     (if free_requests \<noteq> []
                      then osc_messages @
                           [to_osc_message
                              (NodeFreeRequest (concat (map node_ids free_requests)))]
                      else osc_messages)\<rparr>))"

subsection \<open>Allocators\<close>

text \<open>
  Modelled from the spec: the class NodeIdAllocator is not part of the sources at hand. "Integer
  counter starting above the reserved/user range; \<open>allocate() \<rightarrow> id\<close>, strictly increasing."
  The first identifier is 1000, as in the docstring of the class Session.
\<close>

record node_id_allocator =
  next_node_id :: nat

definition NodeIdAllocator_init :: node_id_allocator where
  "NodeIdAllocator_init = \<lparr>next_node_id = 1000\<rparr>"

definition allocate_node_id :: "node_id_allocator \<Rightarrow> nat \<times> node_id_allocator" where
  "allocate_node_id a = (next_node_id a, a\<lparr>next_node_id := next_node_id a + 1\<rparr>)"

text \<open>
  Modelled from the spec: the class BlockAllocator is not part of the sources at hand.
  "Free-list of address ranges; \<open>allocate(size) \<rightarrow>\<close> first address of a free contiguous
  block of length size (first-fit). Fails with AllocationError when no block of the requested
  size is available." A free range is \<open>(start, stop)\<close>, with stop \<open>None\<close> for a heap
  without maximum, which is what \<^verbatim>\<open>BlockAllocator(heap_minimum=...)\<close> creates.
\<close>

type_synonym block_allocator = "(nat \<times> nat option) list"

definition BlockAllocator_init :: "nat \<Rightarrow> block_allocator" where
  "BlockAllocator_init heap_minimum = [(heap_minimum, None)]"

fun allocate :: "nat \<Rightarrow> block_allocator \<Rightarrow> (nat \<times> block_allocator) option" where
  "allocate n [] = None"
| "allocate n ((start, stop) # free) =
     (if (case stop of None \<Rightarrow> True | Some e \<Rightarrow> start + n \<le> e)
      then Some (start, (if stop = Some (start + n) then free
                         else (start + n, stop) # free))
      else map_option (\<lambda>(a, free'). (a, (start, stop) # free')) (allocate n free))"

subsection \<open>\<^verbatim>\<open>Session._build_bus_id_mapping\<close> and \<^verbatim>\<open>Session._build_synth_id_mapping\<close>\<close>

text \<open>
  The id mapping is a dictionary keyed by synths, buses and bus groups. It is only ever
  looked up, never traversed, so it is a map.
\<close>

datatype id_key = SynthKey synth | BusKey bus | BusGroupKey bus_group

type_synonym id_mapping = "id_key \<rightharpoonup> nat"

text \<open>\<^verbatim>\<open>for bus_id, bus in enumerate(bus_group, start): mapping[bus] = bus_id\<close>\<close>

fun enumerate_buses :: "nat \<Rightarrow> bus list \<Rightarrow> id_mapping \<Rightarrow> id_mapping" where
  "enumerate_buses bus_id [] mapping = mapping"
| "enumerate_buses bus_id (b # bs) mapping =
     enumerate_buses (bus_id + 1) bs (mapping(BusKey b \<mapsto> bus_id))"

text \<open>
  \<^verbatim>\<open>for bus_id in range(block_id, block_id + len(bus.bus_group)): mapping[bus] = bus_id\<close>:
  every pass of the loop assigns to the same bus.
\<close>

fun assign_block :: "bus \<Rightarrow> nat list \<Rightarrow> id_mapping \<Rightarrow> id_mapping" where
  "assign_block b [] mapping = mapping"
| "assign_block b (bus_id # bus_ids) mapping =
     assign_block b bus_ids (mapping(BusKey b \<mapsto> bus_id))"

text \<open>
  The loop \<^verbatim>\<open>for bus in self._buses\<close>, with the two allocators as state
  (\<open>audio\<close>, \<open>control\<close>).
\<close>

fun allocate_buses ::
  "bus list \<Rightarrow> block_allocator \<Rightarrow> block_allocator \<Rightarrow> id_mapping \<Rightarrow> error + id_mapping" where
  "allocate_buses [] audio control mapping = Inr mapping"
| "allocate_buses (b # bs) audio control mapping =
     (if mapping (BusKey b) \<noteq> None then allocate_buses bs audio control mapping
      else
        let is_audio = (calculation_rate b = AUDIO);
            allocator = (if is_audio then audio else control)
        in case bus_group b of
             None \<Rightarrow>
               (case allocate 1 allocator of
                  None \<Rightarrow> Inl AllocationError
                | Some (bus_id, allocator') \<Rightarrow>
                    allocate_buses bs
                      (if is_audio then allocator' else audio)
                      (if is_audio then control else allocator')
                      (mapping(BusKey b \<mapsto> bus_id)))
           | Some g \<Rightarrow>
               (case allocate (bus_count g) allocator of
                  None \<Rightarrow> Inl AllocationError
                | Some (block_id, allocator') \<Rightarrow>
                    allocate_buses bs
                      (if is_audio then allocator' else audio)
                      (if is_audio then control else allocator')
                      (assign_block b [block_id..<block_id + bus_count g]
                         (mapping(BusGroupKey g \<mapsto> block_id)))))"

definition build_bus_id_mapping :: "session \<Rightarrow> error + id_mapping" where
  "build_bus_id_mapping s =
     (let first_private_bus_id = input_count s + output_count s;
          audio_bus_allocator = BlockAllocator_init first_private_bus_id;
          control_bus_allocator = BlockAllocator_init 0;
          mapping = Map.empty;
          mapping = (case audio_output_bus_group s of
                       None \<Rightarrow> mapping
                     | Some members \<Rightarrow> enumerate_buses 0 members mapping);
          mapping = (case audio_input_bus_group s of
                       None \<Rightarrow> mapping
                     | Some members \<Rightarrow> enumerate_buses (output_count s) members mapping)
      in allocate_buses (buses s) audio_bus_allocator control_bus_allocator mapping)"

text \<open>
  Modelled from the spec: the comparison of timespans and the traversal of the timespan
  collection are not part of the sources at hand. \<^verbatim>\<open>sorted(self._synths)\<close> is the stable
  sort "ordered by (start_offset, declaration order)".
\<close>

definition sorted_timespans :: "synth list \<Rightarrow> synth list" where
  "sorted_timespans ts = sort_key start_offset ts"

text \<open>
  The loop of \<^verbatim>\<open>_build_synth_id_mapping\<close>. Only synths are ever inserted into the
  collection (\<^verbatim>\<open>add_synth\<close>), so the \<^verbatim>\<open>isinstance\<close> test always passes.
\<close>

fun assign_node_ids :: "synth list \<Rightarrow> node_id_allocator \<Rightarrow> id_mapping \<Rightarrow> id_mapping" where
  "assign_node_ids [] allocator mapping = mapping"
| "assign_node_ids (t # ts) allocator mapping =
     (if mapping (SynthKey t) \<noteq> None then assign_node_ids ts allocator mapping
      else let (node_id, allocator') = allocate_node_id allocator
           in assign_node_ids ts allocator' (mapping(SynthKey t \<mapsto> node_id)))"

definition build_synth_id_mapping :: "session \<Rightarrow> id_mapping" where
  "build_synth_id_mapping s =
     assign_node_ids (sorted_timespans (synths s)) NodeIdAllocator_init Map.empty"

subsection \<open>\<^verbatim>\<open>Session._collect_bus_requests\<close>\<close>

type_synonym request_mapping = "(rat \<times> request list) list"

text \<open>\<^verbatim>\<open>events_by_offset.setdefault(offset, {})[bus_id] = value\<close> for every event of a bus.\<close>

fun record_bus_events ::
  "nat \<Rightarrow> (rat \<times> real) list \<Rightarrow> (rat \<times> (nat \<times> real) list) list
   \<Rightarrow> (rat \<times> (nat \<times> real) list) list" where
  "record_bus_events bus_id [] events_by_offset = events_by_offset"
| "record_bus_events bus_id ((offset, v) # es) events_by_offset =
     record_bus_events bus_id es
       (AList.update offset (AList.update bus_id v (dict_get events_by_offset offset []))
          events_by_offset)"

fun collect_bus_events ::
  "id_mapping \<Rightarrow> bus list \<Rightarrow> (rat \<times> (nat \<times> real) list) list
   \<Rightarrow> error + (rat \<times> (nat \<times> real) list) list" where
  "collect_bus_events id_mapping [] events_by_offset = Inr events_by_offset"
| "collect_bus_events id_mapping (b # bs) events_by_offset =
     (if calculation_rate b \<noteq> CONTROL then collect_bus_events id_mapping bs events_by_offset
      else case id_mapping (BusKey b) of
             None \<Rightarrow> Inl KeyError
           | Some bus_id \<Rightarrow>
               collect_bus_events id_mapping bs
                 (record_bus_events bus_id (events b) events_by_offset))"

text \<open>
  The second loop. The keys of \<^verbatim>\<open>events\<close> are distinct, so \<^verbatim>\<open>sorted(events.items())\<close>
  orders the pairs by bus index.
\<close>

fun add_bus_requests ::
  "(rat \<times> (nat \<times> real) list) list \<Rightarrow> request_mapping \<Rightarrow> request_mapping" where
  "add_bus_requests [] request_mapping = request_mapping"
| "add_bus_requests ((offset, evs) # rest) request_mapping =
     add_bus_requests rest
       (setdefault_extend offset [ControlBusSetRequest (sort_key fst evs)] request_mapping)"

definition collect_bus_requests ::
  "hashing \<Rightarrow> session \<Rightarrow> request_mapping \<Rightarrow> id_mapping \<Rightarrow> error + request_mapping" where
  "collect_bus_requests h s request_mapping id_mapping =
     (case collect_bus_events id_mapping (buses s) [] of
        Inl e \<Rightarrow> Inl e
      | Inr events_by_offset \<Rightarrow>
          Inr (add_bus_requests (items (hash_offset h) events_by_offset) request_mapping))"

subsection \<open>\<^verbatim>\<open>Session._collect_synthdef_requests\<close>\<close>

text \<open>
  Modelled from the spec: the class TimespanCollection is not part of the sources at hand.
  "\<open>simultaneities()\<close>: every distinct timeline point at which at least one entity starts
  or stops, in ascending offset order", each with the entities that start and that stop there.
\<close>

record simultaneity =
  simultaneity_offset :: rat
  start_timespans :: "synth list"
  stop_timespans :: "synth list"

definition iterate_simultaneities :: "synth list \<Rightarrow> simultaneity list" where
  "iterate_simultaneities ts =
     map (\<lambda>offset. \<lparr>simultaneity_offset = offset,
                    start_timespans = filter (\<lambda>t. start_offset t = offset) ts,
                    stop_timespans = filter (\<lambda>t. stop_offset t = Some offset) ts\<rparr>)
         (sort (remdups (map start_offset ts @ List.map_filter stop_offset ts)))"

text \<open>The inner loop \<^verbatim>\<open>for start_event in start_events\<close>.\<close>

fun note_start_events :: "synth list \<Rightarrow> (synthdef \<times> rat) list \<Rightarrow> (synthdef \<times> rat) list" where
  "note_start_events [] synthdefs_to_offsets = synthdefs_to_offsets"
| "note_start_events (start_event # rest) synthdefs_to_offsets =
     (if map_of synthdefs_to_offsets (synthdef start_event) \<noteq> None
      then note_start_events rest synthdefs_to_offsets
      else note_start_events rest
             (AList.update (synthdef start_event) (start_offset start_event)
                synthdefs_to_offsets))"

fun note_simultaneities ::
  "hashing \<Rightarrow> simultaneity list \<Rightarrow> (synthdef \<times> rat) list \<Rightarrow> (synthdef \<times> rat) list" where
  "note_simultaneities h [] synthdefs_to_offsets = synthdefs_to_offsets"
| "note_simultaneities h (sim # sims) synthdefs_to_offsets =
     note_simultaneities h sims
       (note_start_events (set_iter (hash_synth h) (start_timespans sim)) synthdefs_to_offsets)"

fun group_synthdefs ::
  "(synthdef \<times> rat) list \<Rightarrow> (rat \<times> synthdef list) list \<Rightarrow> (rat \<times> synthdef list) list" where
  "group_synthdefs [] offsets_to_synthdefs = offsets_to_synthdefs"
| "group_synthdefs ((sd, offset) # rest) offsets_to_synthdefs =
     group_synthdefs rest (setdefault_extend offset [sd] offsets_to_synthdefs)"

fun add_synthdef_requests ::
  "(rat \<times> synthdef list) list \<Rightarrow> request_mapping \<Rightarrow> request_mapping" where
  "add_synthdef_requests [] request_mapping = request_mapping"
| "add_synthdef_requests ((offset, sds) # rest) request_mapping =
     add_synthdef_requests rest
       (setdefault_extend offset [SynthDefReceiveRequest (sort_key anonymous_name sds)]
          request_mapping)"

definition synthdefs_to_offsets :: "hashing \<Rightarrow> session \<Rightarrow> (synthdef \<times> rat) list" where
  "synthdefs_to_offsets h s = note_simultaneities h (iterate_simultaneities (synths s)) []"

definition offsets_to_synthdefs :: "hashing \<Rightarrow> session \<Rightarrow> (rat \<times> synthdef list) list" where
  "offsets_to_synthdefs h s =
     group_synthdefs (items (hash_synthdef h) (synthdefs_to_offsets h s)) []"

definition collect_synthdef_requests ::
  "hashing \<Rightarrow> session \<Rightarrow> request_mapping \<Rightarrow> request_mapping" where
  "collect_synthdef_requests h s request_mapping =
     add_synthdef_requests (items (hash_offset h) (offsets_to_synthdefs h s)) request_mapping"

subsection \<open>\<^verbatim>\<open>Session._collect_synth_requests\<close>\<close>

text \<open>
  Modelled from the spec and from the example output in the docstring of the class Session:
  \<^verbatim>\<open>Synth._collect_requests\<close> is not part of the sources at hand. It returns a dictionary from
  offsets to requests: the synth-new request with the initial overrides at the start offset,
  a node-set request for every override recorded at a later offset, and a node-free request at
  the stop offset unless the synth never stops. The node id of the synth is looked up in the id
  mapping (\<^verbatim>\<open>id_mapping[self]\<close>).
\<close>

fun record_settings ::
  "nat \<Rightarrow> (rat \<times> string \<times> real) list \<Rightarrow> request_mapping \<Rightarrow> request_mapping" where
  "record_settings node_id [] requests = requests"
| "record_settings node_id ((offset, k, v) # rest) requests =
     record_settings node_id rest
       (setdefault_extend offset [NodeSetRequest node_id [(k, v)]] requests)"

definition requests_of_synth :: "nat \<Rightarrow> synth \<Rightarrow> request_mapping" where
  "requests_of_synth node_id x =
     (let requests = [(start_offset x,
                       [SynthNewRequest node_id (synthdef x) (synth_kwargs x)])];
          requests = record_settings node_id (synth_events x) requests
      in case stop_offset x of
           None \<Rightarrow> requests
         | Some stop \<Rightarrow> setdefault_extend stop [NodeFreeRequest [node_id]] requests)"

definition synth_collect_requests :: "id_mapping \<Rightarrow> synth \<Rightarrow> error + request_mapping" where
  "synth_collect_requests id_mapping x =
     (case id_mapping (SynthKey x) of
        None \<Rightarrow> Inl KeyError
      | Some node_id \<Rightarrow> Inr (requests_of_synth node_id x))"

text \<open>
  \<^verbatim>\<open>requests = request_mapping.setdefault(offset, []); requests.extend(synth_requests)\<close>
  for every item of the synth's dictionary.
\<close>

fun extend_requests :: "request_mapping \<Rightarrow> request_mapping \<Rightarrow> request_mapping" where
  "extend_requests [] request_mapping = request_mapping"
| "extend_requests ((offset, synth_requests) # rest) request_mapping =
     extend_requests rest (setdefault_extend offset synth_requests request_mapping)"

fun collect_each_synth ::
  "hashing \<Rightarrow> id_mapping \<Rightarrow> synth list \<Rightarrow> request_mapping \<Rightarrow> error + request_mapping" where
  "collect_each_synth h id_mapping [] request_mapping = Inr request_mapping"
| "collect_each_synth h id_mapping (x # xs) request_mapping =
     (case synth_collect_requests id_mapping x of
        Inl e \<Rightarrow> Inl e
      | Inr requests \<Rightarrow>
          collect_each_synth h id_mapping xs
            (extend_requests (items (hash_offset h) requests) request_mapping))"

text \<open>
  The sort key is \<^verbatim>\<open>(x._get_timespan(x), id_mapping[x])\<close>; computing it for a synth without
  an entry in the id mapping raises \<^verbatim>\<open>KeyError\<close>. Timespans compare by start offset, as in
  \<open>sorted_timespans\<close>.
\<close>

definition collect_synth_requests ::
  "hashing \<Rightarrow> session \<Rightarrow> request_mapping \<Rightarrow> id_mapping \<Rightarrow> error + request_mapping" where
  "collect_synth_requests h s request_mapping id_mapping =
     (if list_ex (\<lambda>x. id_mapping (SynthKey x) = None) (synths s) then Inl KeyError
      else collect_each_synth h id_mapping
             (sort_key (\<lambda>x. (start_offset x, the (id_mapping (SynthKey x)))) (synths s))
             request_mapping)"

subsection \<open>Render ranges\<close>

text \<open>
  A render range is a timespan whose bounds may be infinite. The operations of the timespan
  inventory that mask and translate belong to an external library; they are parameters.
  \<open>translate ops a b\<close> is the inventory's \<^verbatim>\<open>translate(a - b)\<close>.
\<close>

datatype bound = NegativeInfinity | Offset rat | Infinity

datatype timespan = Timespan bound bound

fun timespan_start_offset :: "timespan \<Rightarrow> bound" where
  "timespan_start_offset (Timespan start stop) = start"

fun timespan_stop_offset :: "timespan \<Rightarrow> bound" where
  "timespan_stop_offset (Timespan start stop) = stop"

record timespan_ops =
  inventory_and :: "synth list \<Rightarrow> timespan \<Rightarrow> synth list"
  translate :: "bound \<Rightarrow> rat \<Rightarrow> synth list \<Rightarrow> synth list"

text \<open>
  \<^verbatim>\<open>_process_timespan_mask\<close>. The tuple \<^verbatim>\<open>(mathtools.Infinity(), mathtools.NegativeInfinity)\<close>
  holds an instance and a class; no offset equals the class, so the membership test asks
  whether the start offset is \<^verbatim>\<open>Infinity\<close>. The new session is \<^verbatim>\<open>type(self)()\<close>, with
  the default channel counts and without buses.
\<close>

definition process_timespan_mask :: "timespan_ops \<Rightarrow> session \<Rightarrow> timespan option \<Rightarrow> session" where
  "process_timespan_mask ops s timespan =
     (case timespan of
        None \<Rightarrow> s
      | Some t \<Rightarrow>
          if synths s = [] then s
          else
            let original_start = Min (set (map start_offset (synths s)));
                masked = inventory_and ops (synths s) t;
                masked = (if timespan_start_offset t \<noteq> Infinity
                          then translate ops (timespan_start_offset t) original_start masked
                          else masked)
            in (Session_init 0 2)\<lparr>synths := masked\<rparr>)"

text \<open>
  \<^verbatim>\<open>_process_terminal_event\<close>: a padding bundle at the stop of the render range, when that
  stop is finite and later than the last offset; its timestamp is
  \<^verbatim>\<open>float(timespan.stop_offset)\<close>.
\<close>

definition process_terminal_event ::
  "rat \<Rightarrow> timespan option \<Rightarrow> error + osc_bundle list" where
  "process_terminal_event final_offset timespan =
     (case timespan of
        None \<Rightarrow> Inr []
      | Some t \<Rightarrow>
          (case timespan_stop_offset t of
             Offset stop \<Rightarrow>
               if final_offset < stop
               then (case float stop of
                       Inl e \<Rightarrow> Inl e
                     | Inr stamp \<Rightarrow>
                         Inr [\<lparr>timestamp = stamp, contents = [OscMessage (Numeric 0) []]\<rparr>])
               else Inr []
           | _ \<Rightarrow> Inr []))"

subsection \<open>\<^verbatim>\<open>Session.to_osc_bundles\<close> and \<^verbatim>\<open>Session.to_datagram\<close>\<close>

definition build_id_mapping :: "session \<Rightarrow> error + id_mapping" where
  "build_id_mapping s =
     (case build_bus_id_mapping s of
        Inl e \<Rightarrow> Inl e
      | Inr bus_ids \<Rightarrow> Inr (build_synth_id_mapping s ++ bus_ids))"

definition collect_requests :: "hashing \<Rightarrow> session \<Rightarrow> error + request_mapping" where
  "collect_requests h s =
     (case build_id_mapping s of
        Inl e \<Rightarrow> Inl e
      | Inr id_mapping \<Rightarrow>
          (case collect_bus_requests h s [] id_mapping of
             Inl e \<Rightarrow> Inl e
           | Inr request_mapping \<Rightarrow>
               collect_synth_requests h s (collect_synthdef_requests h s request_mapping)
                 id_mapping))"

text \<open>
  The loop \<^verbatim>\<open>for offset, requests in sorted(request_mapping.items())\<close>: one bundle for
  each offset, in the order of the offsets; the first conversion that fails ends it.
\<close>

fun process_each :: "(rat \<times> request list) list \<Rightarrow> error + osc_bundle list" where
  "process_each [] = Inr []"
| "process_each ((offset, requests) # rest) =
     (case process_requests offset requests of
        Inl e \<Rightarrow> Inl e
      | Inr osc_bundle \<Rightarrow>
          (case process_each rest of
             Inl e \<Rightarrow> Inl e
           | Inr osc_bundles \<Rightarrow> Inr (osc_bundle # osc_bundles)))"

definition to_osc_bundles ::
  "hashing \<Rightarrow> timespan_ops \<Rightarrow> session \<Rightarrow> timespan option \<Rightarrow> error + osc_bundle list" where
  "to_osc_bundles h ops s timespan =
     (let session = process_timespan_mask ops s timespan
      in case collect_requests h session of
           Inl e \<Rightarrow> Inl e
         | Inr request_mapping \<Rightarrow>
             if request_mapping = [] then Inl ValueError
             else
               let sorted_items = sort_key fst (items (hash_offset h) request_mapping);
                   offset = fst (last sorted_items)
               in case process_each sorted_items of
                    Inl e \<Rightarrow> Inl e
                  | Inr osc_bundles \<Rightarrow>
                      (case process_terminal_event offset timespan of
                         Inl e \<Rightarrow> Inl e
                       | Inr terminal \<Rightarrow> Inr (osc_bundles @ terminal)))"

text \<open>
  \<^verbatim>\<open>struct.pack('>i', size)\<close>: four bytes, most significant first; sizes that do not fit
  a signed 32-bit integer raise \<^verbatim>\<open>struct.error\<close>.
\<close>

definition struct_pack_i :: "nat \<Rightarrow> error + byte list" where
  "struct_pack_i n =
     (if n < 2 ^ 31
      then Inr [of_nat (n div 2 ^ 24), of_nat (n div 2 ^ 16 mod 256),
                of_nat (n div 2 ^ 8 mod 256), of_nat (n mod 256)]
      else Inl StructError)"

text \<open>
  The wire encoding of a bundle (\<^verbatim>\<open>osc_bundle.to_datagram(realtime=False)\<close>) is outside
  this development; it is the parameter \<open>encode\<close>.
\<close>

fun join_datagrams :: "(osc_bundle \<Rightarrow> byte list) \<Rightarrow> osc_bundle list \<Rightarrow> error + byte list" where
  "join_datagrams encode [] = Inr []"
| "join_datagrams encode (osc_bundle # osc_bundles) =
     (let datagram = encode osc_bundle
      in case struct_pack_i (length datagram) of
           Inl e \<Rightarrow> Inl e
         | Inr prefix \<Rightarrow>
             (case join_datagrams encode osc_bundles of
                Inl e \<Rightarrow> Inl e
              | Inr rest \<Rightarrow> Inr (prefix @ datagram @ rest)))"

definition to_datagram ::
  "(osc_bundle \<Rightarrow> byte list) \<Rightarrow> hashing \<Rightarrow> timespan_ops \<Rightarrow> session \<Rightarrow> timespan option
   \<Rightarrow> error + byte list" where
  "to_datagram encode h ops s timespan =
     (case to_osc_bundles h ops s timespan of
        Inl e \<Rightarrow> Inl e
      | Inr osc_bundles \<Rightarrow> join_datagrams encode osc_bundles)"

section \<open>Multi-output unit generators and unit generator arrays\<close>

text \<open>
  \<^verbatim>\<open>UGenArray.__init__\<close> asserts that it is given a non-empty sequence and keeps it as a
  tuple.
\<close>

datatype 'a ugen_array = UGenArray (ugens: "'a list")

definition UGenArray_init :: "'a list \<Rightarrow> error + 'a ugen_array" where
  "UGenArray_init us = (if length us = 0 then Inl AssertionError else Inr (UGenArray us))"

definition UGenArray_len :: "'a ugen_array \<Rightarrow> nat" where
  "UGenArray_len self = length (ugens self)"

text \<open>
  The arithmetic methods build \<^verbatim>\<open>type(self)([x + expr for x in self.ugens])\<close> and the
  like. The arithmetic of the elements is outside this development; it is a parameter.
\<close>

definition UGenArray_add :: "('a \<Rightarrow> 'e \<Rightarrow> 'b) \<Rightarrow> 'a ugen_array \<Rightarrow> 'e \<Rightarrow> error + 'b ugen_array" where
  "UGenArray_add add self expr = UGenArray_init (map (\<lambda>x. add x expr) (ugens self))"

definition UGenArray_div :: "('a \<Rightarrow> 'e \<Rightarrow> 'b) \<Rightarrow> 'a ugen_array \<Rightarrow> 'e \<Rightarrow> error + 'b ugen_array" where
  "UGenArray_div div' self expr = UGenArray_init (map (\<lambda>x. div' x expr) (ugens self))"

definition UGenArray_mod :: "('a \<Rightarrow> 'e \<Rightarrow> 'b) \<Rightarrow> 'a ugen_array \<Rightarrow> 'e \<Rightarrow> error + 'b ugen_array" where
  "UGenArray_mod mod' self expr = UGenArray_init (map (\<lambda>x. mod' x expr) (ugens self))"

definition UGenArray_mul :: "('a \<Rightarrow> 'e \<Rightarrow> 'b) \<Rightarrow> 'a ugen_array \<Rightarrow> 'e \<Rightarrow> error + 'b ugen_array" where
  "UGenArray_mul mul self expr = UGenArray_init (map (\<lambda>x. mul x expr) (ugens self))"

definition UGenArray_neg :: "('a \<Rightarrow> 'b) \<Rightarrow> 'a ugen_array \<Rightarrow> error + 'b ugen_array" where
  "UGenArray_neg neg self = UGenArray_init (map (\<lambda>x. neg x) (ugens self))"

definition UGenArray_sub :: "('a \<Rightarrow> 'e \<Rightarrow> 'b) \<Rightarrow> 'a ugen_array \<Rightarrow> 'e \<Rightarrow> error + 'b ugen_array" where
  "UGenArray_sub sub self expr = UGenArray_init (map (\<lambda>x. sub x expr) (ugens self))"

text \<open>
  Modelled from the spec: the classes UGen and OutputProxy are not part of the sources at hand.
  An output proxy is "a (producing-UGenNode, output-index) pair"; \<^verbatim>\<open>ugen[:]\<close> lists the
  proxies of all outputs of a unit generator, of which a multi-output unit generator has
  \<^verbatim>\<open>channel_count\<close> (\<^verbatim>\<open>MultiOutUGen.__len__\<close>).
\<close>

record ugen =
  ugen_uid :: nat
  channel_count :: nat

datatype output_proxy = OutputProxy ugen nat

definition ugen_outputs :: "ugen \<Rightarrow> output_proxy list" where
  "ugen_outputs u = map (OutputProxy u) [0..<channel_count u]"

text \<open>
  \<^verbatim>\<open>MultiOutUGen._new_expanded\<close>. The expansion of the superclass returns one unit generator
  or a sequence of them.
\<close>

datatype expansion = Single ugen | Expanded "ugen list"

datatype expanded_result = Proxy output_proxy | Array "output_proxy ugen_array"

definition flatten_output_proxies :: "expansion \<Rightarrow> output_proxy list" where
  "flatten_output_proxies e =
     (case e of Single u \<Rightarrow> ugen_outputs u | Expanded us \<Rightarrow> concat (map ugen_outputs us))"

definition new_expanded :: "expansion \<Rightarrow> error + expanded_result" where
  "new_expanded e =
     (let output_proxies = flatten_output_proxies e
      in if length output_proxies = 1 then Inr (Proxy (output_proxies ! 0))
         else case UGenArray_init output_proxies of
                Inl err \<Rightarrow> Inl err
              | Inr result \<Rightarrow> Inr (Array result))"

section \<open>The command vocabulary and the statements about bundles\<close>

text \<open>
  The commands of the spec, in their emission priority: definition-receive, bus-set, group-new,
  synth-new, bus-mapping, parameter-set, node-free. A message is one of these commands by its
  textual address; the padding message \<^verbatim>\<open>OscMessage(0)\<close> of the terminal bundle is none.
\<close>

datatype command =
  DefinitionReceive | BusSet | GroupNew | SynthNew | BusMapping | ParameterSet | NodeFree

fun command_priority :: "command \<Rightarrow> nat" where
  "command_priority DefinitionReceive = 0"
| "command_priority BusSet = 1"
| "command_priority GroupNew = 2"
| "command_priority SynthNew = 3"
| "command_priority BusMapping = 4"
| "command_priority ParameterSet = 5"
| "command_priority NodeFree = 6"

fun command_of :: "osc_message \<Rightarrow> command option" where
  "command_of (OscMessage address arguments) =
     (if address = Textual ''/d_recv'' then Some DefinitionReceive
      else if address = Textual ''/c_set'' then Some BusSet
      else if address = Textual ''/g_new'' then Some GroupNew
      else if address = Textual ''/s_new'' then Some SynthNew
      else if address = Textual ''/n_mapa'' \<or> address = Textual ''/n_map'' then Some BusMapping
      else if address = Textual ''/n_set'' then Some ParameterSet
      else if address = Textual ''/n_free'' then Some NodeFree
      else None)"

fun command_of_type :: "request_type \<Rightarrow> command option" where
  "command_of_type SynthDefReceiveRequestType = Some DefinitionReceive"
| "command_of_type ControlBusSetRequestType = Some BusSet"
| "command_of_type GroupNewRequestType = Some GroupNew"
| "command_of_type SynthNewRequestType = Some SynthNew"
| "command_of_type NodeMapToAudioBusRequestType = Some BusMapping"
| "command_of_type NodeMapToControlBusRequestType = Some BusMapping"
| "command_of_type NodeSetRequestType = Some ParameterSet"
| "command_of_type NodeFreeRequestType = Some NodeFree"
| "command_of_type (OtherRequestType t) = None"

text \<open>The commands that \<open>process_requests\<close> emits for a list of requests.\<close>

definition priority_commands :: "request list \<Rightarrow> command list" where
  "priority_commands rs =
     concat (map (\<lambda>t. replicate (length (requests_by_type rs t)) (the (command_of_type t)))
                 prioritized_request_types)"

definition bundle_commands :: "request list \<Rightarrow> command list" where
  "bundle_commands rs =
     priority_commands rs @ (if requests_by_type rs NodeFreeRequestType \<noteq> [] then [NodeFree] else [])"

text \<open>
  The commands of a bundle are grouped in priority order; a definition-receive command comes
  before every synth-new command; a node-free command comes after every other message.
\<close>

definition in_priority_order :: "osc_message list \<Rightarrow> bool" where
  "in_priority_order ms \<longleftrightarrow>
     (\<exists>cs. map command_of ms = map Some cs \<and> sorted (map command_priority cs))"

definition receive_before_new :: "osc_message list \<Rightarrow> bool" where
  "receive_before_new ms \<longleftrightarrow>
     (\<forall>i j. i < length ms \<and> j < length ms \<and> command_of (ms ! i) = Some DefinitionReceive \<and>
            command_of (ms ! j) = Some SynthNew \<longrightarrow> i < j)"

definition free_last :: "osc_message list \<Rightarrow> bool" where
  "free_last ms \<longleftrightarrow>
     (\<forall>i j. i < length ms \<and> j < length ms \<and> command_of (ms ! i) = Some NodeFree \<and>
            command_of (ms ! j) \<noteq> Some NodeFree \<longrightarrow> j < i)"

text \<open>
  An arithmetic method preserves the length of an array when it returns an array of the same
  length.
\<close>

definition length_preserved :: "'a ugen_array \<Rightarrow> error + 'b ugen_array \<Rightarrow> bool" where
  "length_preserved self result \<longleftrightarrow>
     (case result of Inl err \<Rightarrow> False | Inr a \<Rightarrow> UGenArray_len a = UGenArray_len self)"

text \<open>The number that a byte sequence denotes, most significant byte first.\<close>

definition big_endian :: "byte list \<Rightarrow> nat" where
  "big_endian bytes = foldl (\<lambda>acc b. acc * 256 + unat b) 0 bytes"

text \<open>Every bus that belongs to a group belongs to a group with at least one bus.\<close>

definition buses_ok :: "session \<Rightarrow> bool" where
  "buses_ok s \<longleftrightarrow> (\<forall>b\<in>set (buses s). \<forall>g. bus_group b = Some g \<longrightarrow> 0 < bus_count g)"

text \<open>
  The value of a bus in effect at an offset is that of its last event recorded for the offset.
  The control-bus changes of an offset are the pairs of the id of a control bus of the session
  with an event at that offset and that value. \<open>commands_of\<close> selects the commands of one
  kind from a bundle.
\<close>

definition last_value :: "(rat \<times> real) list \<Rightarrow> rat \<Rightarrow> real option" where
  "last_value es offset = map_of (rev es) offset"


definition commands_of :: "command \<Rightarrow> osc_bundle \<Rightarrow> osc_message list" where
  "commands_of c b = filter (\<lambda>m. command_of m = Some c) (contents b)"

text \<open>
  The offsets that the loop of \<open>to_osc_bundles\<close> takes, in its order: the keys of the
  request mapping of the rendered session, sorted. The bundle at a position of the result is
  made for the offset at that position, and \<open>bundles_for\<close> selects the bundles made for an
  offset. (The timestamp does not identify the offset, since two offsets may have the same
  float.)
\<close>

definition bundle_offsets ::
  "hashing \<Rightarrow> timespan_ops \<Rightarrow> session \<Rightarrow> timespan option \<Rightarrow> rat list" where
  "bundle_offsets h ops s timespan =
     (case collect_requests h (process_timespan_mask ops s timespan) of
        Inl e \<Rightarrow> []
      | Inr request_mapping \<Rightarrow>
          map fst (sort_key fst (items (hash_offset h) request_mapping)))"

definition bundles_for :: "rat \<Rightarrow> rat list \<Rightarrow> osc_bundle list \<Rightarrow> osc_bundle list" where
  "bundles_for offset offsets bs = map snd (filter (\<lambda>p. fst p = offset) (zip offsets bs))"

text \<open>
  The addresses that \<open>build_bus_id_mapping\<close> gives to the buses of a session, in their
  order, and next to them the addresses recorded for the groups of these buses.
\<close>

definition bus_ids_of :: "session \<Rightarrow> error + nat option list \<times> nat option list" where
  "bus_ids_of s =
     (case build_bus_id_mapping s of
        Inl e \<Rightarrow> Inl e
      | Inr mapping \<Rightarrow>
          Inr (map (\<lambda>b. mapping (BusKey b)) (buses s),
               map (\<lambda>b. case bus_group b of None \<Rightarrow> None
                         | Some g \<Rightarrow> mapping (BusGroupKey g)) (buses s)))"

text \<open>
  The earliest offset at which a synth of the session with the definition \<open>sd\<close> starts, and
  the commands that carry this definition to the server.
\<close>

definition first_start_offset :: "session \<Rightarrow> synthdef \<Rightarrow> rat" where
  "first_start_offset s sd =
     Min (set (map start_offset (filter (\<lambda>x. synthdef x = sd) (synths s))))"

fun receives :: "synthdef \<Rightarrow> osc_message \<Rightarrow> bool" where
  "receives sd (OscMessage address [OscBlob sds]) =
     (address = Textual ''/d_recv'' \<and> sd \<in> set sds)"
| "receives sd _ = False"


section \<open>Notions used in the proofs\<close>

text \<open>
  The requests that the three collecting passes contribute, as dictionaries from offsets, and
  the synths in the order in which \<^verbatim>\<open>_collect_synth_requests\<close> visits them.
\<close>

definition bus_requests :: "(rat \<times> (nat \<times> real) list) list \<Rightarrow> request_mapping" where
  "bus_requests events_by_offset =
     map (\<lambda>(offset, evs). (offset, [ControlBusSetRequest (sort_key fst evs)])) events_by_offset"

definition synthdef_requests :: "(rat \<times> synthdef list) list \<Rightarrow> request_mapping" where
  "synthdef_requests d =
     map (\<lambda>(offset, sds). (offset, [SynthDefReceiveRequest (sort_key anonymous_name sds)])) d"

definition node_id_of :: "id_mapping \<Rightarrow> synth \<Rightarrow> nat" where
  "node_id_of id_mapping x = the (id_mapping (SynthKey x))"

definition sorted_synths :: "id_mapping \<Rightarrow> session \<Rightarrow> synth list" where
  "sorted_synths id_mapping s =
     sort_key (\<lambda>x. (start_offset x, the (id_mapping (SynthKey x)))) (synths s)"

definition synth_requests_at :: "id_mapping \<Rightarrow> synth list \<Rightarrow> rat \<Rightarrow> request list" where
  "synth_requests_at id_mapping xs k =
     concat (map (\<lambda>x. dict_get (requests_of_synth (node_id_of id_mapping x) x) k []) xs)"

text \<open>
  Invariants of the loop of \<^verbatim>\<open>_build_bus_id_mapping\<close>, for the buses that are served by the
  control-rate allocator: their ids lie below the allocator's first free address and are
  pairwise different. \<open>block_size\<close> is the size of the block that the loop allocates for a
  bus and \<open>allocated\<close> the mapping after the pass of the loop for a bus not yet mapped.
\<close>

definition control_ids_below :: "nat \<Rightarrow> id_mapping \<Rightarrow> bool" where
  "control_ids_below c m \<longleftrightarrow>
     (\<forall>b i. calculation_rate b \<noteq> AUDIO \<longrightarrow> m (BusKey b) = Some i \<longrightarrow> i < c)"

definition control_ids_distinct :: "id_mapping \<Rightarrow> bool" where
  "control_ids_distinct m \<longleftrightarrow>
     (\<forall>b b' i. calculation_rate b \<noteq> AUDIO \<longrightarrow> calculation_rate b' \<noteq> AUDIO \<longrightarrow>
        m (BusKey b) = Some i \<longrightarrow> m (BusKey b') = Some i \<longrightarrow> b = b')"

definition block_size :: "bus \<Rightarrow> nat" where
  "block_size b = (case bus_group b of None \<Rightarrow> 1 | Some g \<Rightarrow> bus_count g)"

definition allocated :: "bus \<Rightarrow> nat \<Rightarrow> id_mapping \<Rightarrow> id_mapping" where
  "allocated b base m =
     (case bus_group b of
        None \<Rightarrow> m(BusKey b \<mapsto> base)
      | Some g \<Rightarrow>
          if bus_count g = 0 then m(BusGroupKey g \<mapsto> base)
          else m(BusGroupKey g \<mapsto> base, BusKey b \<mapsto> base + bus_count g - 1))"



text \<open>An element comes before another one in a list.\<close>

definition precedes :: "'a \<Rightarrow> 'a \<Rightarrow> 'a list \<Rightarrow> bool" where
  "precedes x y zs \<longleftrightarrow> (\<exists>us vs ws. zs = us @ x # vs @ y # ws)"

text \<open>
  The first of a list of offsets at which a synth with a definition starts, the simultaneity
  at an offset, and the definitions grouped under an offset.
\<close>

definition starts_with :: "rat \<Rightarrow> synthdef \<Rightarrow> synth \<Rightarrow> bool" where
  "starts_with offset sd x \<longleftrightarrow> start_offset x = offset \<and> synthdef x = sd"

fun first_use :: "synth list \<Rightarrow> rat list \<Rightarrow> synthdef \<Rightarrow> rat option" where
  "first_use ts [] sd = None"
| "first_use ts (offset # offsets) sd =
     (if list_ex (starts_with offset sd) ts then Some offset else first_use ts offsets sd)"

definition simultaneity_at :: "synth list \<Rightarrow> rat \<Rightarrow> simultaneity" where
  "simultaneity_at ts offset =
     \<lparr>simultaneity_offset = offset,
      start_timespans = filter (\<lambda>t. start_offset t = offset) ts,
      stop_timespans = filter (\<lambda>t. stop_offset t = Some offset) ts\<rparr>"

definition first_used_at :: "hashing \<Rightarrow> session \<Rightarrow> rat \<Rightarrow> synthdef list" where
  "first_used_at h s offset = dict_get (offsets_to_synthdefs h s) offset []"

text \<open>
  The double nearest to a positive rational; the bundle that \<open>process_requests\<close> returns
  for an offset whose float exists, and the bundles that \<open>process_terminal_event\<close> returns
  when the float of the stop exists.
\<close>

definition positive_double :: "rat \<Rightarrow> rat" where
  "positive_double q =
     of_int (round_half_even (q / 2 powi (max (exponent q) (- 1022) - 52))) *
     2 powi (max (exponent q) (- 1022) - 52)"

definition bundle_of :: "rat \<Rightarrow> request list \<Rightarrow> osc_bundle" where
  "bundle_of offset requests =
     (let osc_messages =
            concat (map (\<lambda>t. map to_osc_message (requests_by_type requests t))
                        prioritized_request_types);
          free_requests = requests_by_type requests NodeFreeRequestType
      in \<lparr>timestamp = of_rat (nearest_double offset),
          contents =
            (if free_requests \<noteq> []
             then osc_messages @
                  [to_osc_message (NodeFreeRequest (concat (map node_ids free_requests)))]
             else osc_messages)\<rparr>)"

definition terminal_bundles :: "rat \<Rightarrow> timespan option \<Rightarrow> osc_bundle list" where
  "terminal_bundles final_offset timespan =
     (case timespan of
        None \<Rightarrow> []
      | Some t \<Rightarrow>
          (case timespan_stop_offset t of
             Offset stop \<Rightarrow>
               if final_offset < stop
               then [\<lparr>timestamp = of_rat (nearest_double stop),
                      contents = [OscMessage (Numeric 0) []]\<rparr>]
               else []
           | _ \<Rightarrow> []))"

section \<open>Example sessions\<close>

text \<open>
  The insertion-order traversal of hash containers, and timespan operations that leave the
  synths as they are (they are only consulted when a render range is given).
\<close>

definition insertion_order :: hashing where
  "insertion_order =
     \<lparr>hash_offset = (\<lambda>_. 0), hash_synth = (\<lambda>_. 0), hash_synthdef = (\<lambda>_. 0)\<rparr>"

definition no_mask :: timespan_ops where
  "no_mask = \<lparr>inventory_and = (\<lambda>xs t. xs), translate = (\<lambda>a b xs. xs)\<rparr>"

definition example_synthdef :: synthdef where
  "example_synthdef = \<lparr>name = None, anonymous_name = ''9c4eb4778dc0faf39459fa8a5cd45c19''\<rparr>"

text \<open>A synth on \<open>[0, 10)\<close> followed by a synth on \<open>[10, 20)\<close>, and the bundles expected.\<close>

definition relay_session :: session where
  "relay_session =
     add_synth 10 (Some 20) example_synthdef []
       (add_synth 0 (Some 10) example_synthdef [] (Session_init 0 2))"

definition relay_bundles :: "osc_bundle list" where
  "relay_bundles =
     [\<lparr>timestamp = 0,
       contents = [OscMessage (Textual ''/d_recv'') [OscBlob [example_synthdef]],
                   OscMessage (Textual ''/s_new'')
                     [OscString ''9c4eb4778dc0faf39459fa8a5cd45c19'',
                      OscInt 1000, OscInt 0, OscInt 0]]\<rparr>,
      \<lparr>timestamp = 10,
       contents = [OscMessage (Textual ''/s_new'')
                     [OscString ''9c4eb4778dc0faf39459fa8a5cd45c19'',
                      OscInt 1001, OscInt 0, OscInt 0],
                   OscMessage (Textual ''/n_free'') [OscInt 1000]]\<rparr>,
      \<lparr>timestamp = 20, contents = [OscMessage (Textual ''/n_free'') [OscInt 1001]]\<rparr>]"

text \<open>A unit generator without outputs and one with two.\<close>

definition silent_ugen :: ugen where
  "silent_ugen = \<lparr>ugen_uid = 0, channel_count = 0\<rparr>"

definition stereo_ugen :: ugen where
  "stereo_ugen = \<lparr>ugen_uid = 0, channel_count = 2\<rparr>"

text \<open>A stand-in for the wire encoding: one zero byte per message of the bundle.\<close>

definition example_encode :: "osc_bundle \<Rightarrow> byte list" where
  "example_encode b = replicate (length (contents b)) 0"



text \<open>
  \<^verbatim>\<open>session.add_bus_group(bus_count=2)\<close> followed by \<^verbatim>\<open>session.add_bus()\<close>, all
  control rate.
\<close>

definition group_session :: session where
  "group_session = add_bus CONTROL (add_bus_group 2 CONTROL (Session_init 0 2))"

text \<open>
  The session of the docstring of the class: \<^verbatim>\<open>synth_a\<close> on \<open>[0, 10)\<close>,
  \<^verbatim>\<open>synth_b\<close> on \<open>[5, 15)\<close> with frequency 443, \<^verbatim>\<open>synth_c\<close> on \<open>[0, 15)\<close> with
  frequency 666, and at offset 7.5 the frequencies of \<^verbatim>\<open>synth_a\<close> and \<^verbatim>\<open>synth_b\<close> set
  to 880 and 990; and the bundles that the docstring prints for it.
\<close>

definition docstring_session :: session where
  "docstring_session =
     \<lparr>input_count = 0, output_count = 2, buses = [],
      synths = [\<lparr>synth_uid = 0, start_offset = 0, stop_offset = Some 10,
                 synthdef = example_synthdef, synth_kwargs = [],
                 synth_events = [(15 / 2, ''frequency'', 880)]\<rparr>,
                \<lparr>synth_uid = 1, start_offset = 5, stop_offset = Some 15,
                 synthdef = example_synthdef, synth_kwargs = [(''frequency'', 443)],
                 synth_events = [(15 / 2, ''frequency'', 990)]\<rparr>,
                \<lparr>synth_uid = 2, start_offset = 0, stop_offset = Some 15,
                 synthdef = example_synthdef, synth_kwargs = [(''frequency'', 666)],
                 synth_events = []\<rparr>]\<rparr>"

definition docstring_bundles :: "osc_bundle list" where
  "docstring_bundles =
     [\<lparr>timestamp = 0,
       contents = [OscMessage (Textual ''/d_recv'') [OscBlob [example_synthdef]],
                   OscMessage (Textual ''/s_new'')
                     [OscString ''9c4eb4778dc0faf39459fa8a5cd45c19'',
                      OscInt 1000, OscInt 0, OscInt 0],
                   OscMessage (Textual ''/s_new'')
                     [OscString ''9c4eb4778dc0faf39459fa8a5cd45c19'',
                      OscInt 1001, OscInt 0, OscInt 0, OscString ''frequency'',
                      OscFloat 666]]\<rparr>,
      \<lparr>timestamp = 5,
       contents = [OscMessage (Textual ''/s_new'')
                     [OscString ''9c4eb4778dc0faf39459fa8a5cd45c19'',
                      OscInt 1002, OscInt 0, OscInt 0, OscString ''frequency'',
                      OscFloat 443]]\<rparr>,
      \<lparr>timestamp = 15 / 2,
       contents = [OscMessage (Textual ''/n_set'')
                     [OscInt 1000, OscString ''frequency'', OscFloat 880],
                   OscMessage (Textual ''/n_set'')
                     [OscInt 1002, OscString ''frequency'', OscFloat 990]]\<rparr>,
      \<lparr>timestamp = 10, contents = [OscMessage (Textual ''/n_free'') [OscInt 1000]]\<rparr>,
      \<lparr>timestamp = 15,
       contents = [OscMessage (Textual ''/n_free'') [OscInt 1001, OscInt 1002]]\<rparr>]"

text \<open>
  Two overlapping synths on \<open>[0, 10)\<close> and \<open>[5, 15)\<close> that share one definition, and the
  bundles expected.
\<close>

definition overlap_session :: session where
  "overlap_session =
     add_synth 5 (Some 15) example_synthdef []
       (add_synth 0 (Some 10) example_synthdef [] (Session_init 0 2))"

definition overlap_bundles :: "osc_bundle list" where
  "overlap_bundles =
     [\<lparr>timestamp = 0,
       contents = [OscMessage (Textual ''/d_recv'') [OscBlob [example_synthdef]],
                   OscMessage (Textual ''/s_new'')
                     [OscString ''9c4eb4778dc0faf39459fa8a5cd45c19'',
                      OscInt 1000, OscInt 0, OscInt 0]]\<rparr>,
      \<lparr>timestamp = 5,
       contents = [OscMessage (Textual ''/s_new'')
                     [OscString ''9c4eb4778dc0faf39459fa8a5cd45c19'',
                      OscInt 1001, OscInt 0, OscInt 0]]\<rparr>,
      \<lparr>timestamp = 10, contents = [OscMessage (Textual ''/n_free'') [OscInt 1000]]\<rparr>,
      \<lparr>timestamp = 15, contents = [OscMessage (Textual ''/n_free'') [OscInt 1001]]\<rparr>]"

text \<open>
  Two synths that never stop and start at two offsets with the same float, a third and the
  double nearest to it (which is the smaller of the two), and the bundles expected.
\<close>

definition rounding_session :: session where
  "rounding_session =
     add_synth (6004799503160661 / 18014398509481984) None example_synthdef []
       (add_synth (1 / 3) None example_synthdef [] (Session_init 0 2))"

definition rounding_bundles :: "osc_bundle list" where
  "rounding_bundles =
     [\<lparr>timestamp = 6004799503160661 / 18014398509481984,
       contents = [OscMessage (Textual ''/d_recv'') [OscBlob [example_synthdef]],
                   OscMessage (Textual ''/s_new'')
                     [OscString ''9c4eb4778dc0faf39459fa8a5cd45c19'',
                      OscInt 1000, OscInt 0, OscInt 0]]\<rparr>,
      \<lparr>timestamp = 6004799503160661 / 18014398509481984,
       contents = [OscMessage (Textual ''/s_new'')
                     [OscString ''9c4eb4778dc0faf39459fa8a5cd45c19'',
                      OscInt 1001, OscInt 0, OscInt 0]]\<rparr>]"








section \<open>Rounding to the nearest double\<close>

lemma powi_less_imp_less:
  assumes "(2::rat) powi m < 2 powi n"
  shows "m < n"
proof (rule ccontr)
  assume "\<not> m < n"
  then have "n \<le> m" by simp
  then have "(2::rat) powi n \<le> 2 powi m" by (intro power_int_increasing) simp_all
  with assms show False by simp
qed

lemma powi_add: "(2::rat) powi (m + n) = 2 powi m * 2 powi n"
  by (rule power_int_add) simp

lemma powi_53: "(2::rat) powi (n + 1) = of_int (2 ^ 53) * 2 powi (n - 52)"
  using powi_add [of 53 "n - 52"] by (simp add: add.commute)

lemma powi_52: "(2::rat) powi n = of_int (2 ^ 52) * 2 powi (n - 52)"
  using powi_add [of 52 "n - 52"] by simp

lemma bitlen_powi:
  assumes "0 < a"
  shows "(2::rat) powi (bitlen a - 1) \<le> of_int a \<and> of_int a < (2::rat) powi bitlen a"
proof -
  from bitlen_bounds [OF assms]
  have l: "2 ^ nat (bitlen a - 1) \<le> a" and u: "a < 2 ^ nat (bitlen a)" by simp_all
  have p: "1 \<le> bitlen a" using assms by (simp add: bitlen_alt_def)
  have "(2::rat) powi (bitlen a - 1) = 2 ^ nat (bitlen a - 1)"
    using p by (simp add: power_int_def)
  also have "\<dots> = of_int (2 ^ nat (bitlen a - 1))" by simp
  also have "\<dots> \<le> of_int a" using l by (simp only: of_int_le_iff)
  finally have 1: "(2::rat) powi (bitlen a - 1) \<le> of_int a" .
  have "(of_int a :: rat) < of_int (2 ^ nat (bitlen a))" using u by (simp only: of_int_less_iff)
  also have "\<dots> = 2 ^ nat (bitlen a)" by simp
  also have "\<dots> = (2::rat) powi bitlen a" using p by (simp add: power_int_def)
  finally have 2: "of_int a < (2::rat) powi bitlen a" .
  from 1 2 show ?thesis ..
qed

lemma exponent_bounds:
  assumes "0 < q"
  shows "2 powi exponent q \<le> q \<and> q < 2 powi (exponent q + 1)"
proof -
  obtain a b where ab: "quotient_of q = (a, b)" by (cases "quotient_of q")
  then have b: "0 < b" by (rule quotient_of_denom_pos)
  from ab have q: "q = of_int a / of_int b" by (rule quotient_of_div)
  with assms b have a: "0 < a" by (simp add: zero_less_divide_iff)
  let ?d = "bitlen a - bitlen b"
  from bitlen_powi [OF a] have al: "(2::rat) powi (bitlen a - 1) \<le> of_int a"
    and au: "of_int a < (2::rat) powi bitlen a" by simp_all
  from bitlen_powi [OF b] have bl: "(2::rat) powi (bitlen b - 1) \<le> of_int b"
    and bu: "of_int b < (2::rat) powi bitlen b" by simp_all
  have bp: "(0::rat) < of_int b" using b by simp
  have "q * of_int b = of_int a" using q bp by simp
  have u: "q < 2 powi (?d + 1)"
  proof -
    have "of_int a < (2::rat) powi (?d + 1) * 2 powi (bitlen b - 1)"
      using au by (simp add: powi_add [symmetric])
    also have "\<dots> \<le> 2 powi (?d + 1) * of_int b"
      using bl by (intro mult_left_mono) simp_all
    finally show ?thesis using bp by (simp add: q pos_divide_less_eq)
  qed
  have l: "2 powi (?d - 1) < q"
  proof -
    have "(2::rat) powi (?d - 1) * of_int b < 2 powi (?d - 1) * 2 powi bitlen b"
      using bu by (intro mult_strict_left_mono) simp_all
    also have "\<dots> = 2 powi (bitlen a - 1)" by (simp add: powi_add [symmetric])
    also have "\<dots> \<le> of_int a" by (rule al)
    finally show ?thesis using bp by (simp add: q pos_less_divide_eq)
  qed
  show ?thesis
  proof (cases "2 powi ?d \<le> q")
    case True
    then have "exponent q = ?d" by (simp add: exponent_def ab)
    with True u show ?thesis by simp
  next
    case False
    then have "exponent q = ?d - 1" by (simp add: exponent_def ab)
    with False l show ?thesis by simp
  qed
qed

lemma exponent_mono:
  assumes "0 < p" and "p \<le> q"
  shows "exponent p \<le> exponent q"
proof -
  from assms have "0 < q" by simp
  from exponent_bounds [OF assms(1)] exponent_bounds [OF this] assms(2)
  have "(2::rat) powi exponent p < 2 powi (exponent q + 1)" by simp
  then have "exponent p < exponent q + 1" by (rule powi_less_imp_less)
  then show ?thesis by simp
qed

lemma floor_le_round_half_even: "\<lfloor>x\<rfloor> \<le> round_half_even x"
  by (simp add: round_half_even_def Let_def)

lemma round_half_even_le_floor: "round_half_even x \<le> \<lfloor>x\<rfloor> + 1"
  by (simp add: round_half_even_def Let_def)

lemma round_half_even_ge:
  assumes "of_int n \<le> x"
  shows "n \<le> round_half_even x"
proof -
  from assms have "n \<le> \<lfloor>x\<rfloor>" by (simp add: le_floor_iff)
  with floor_le_round_half_even [of x] show ?thesis by simp
qed

lemma round_half_even_le:
  assumes "x \<le> of_int n"
  shows "round_half_even x \<le> n"
proof (cases "x = of_int n")
  case True
  then show ?thesis by (simp add: round_half_even_def)
next
  case False
  with assms have "x < of_int n" by simp
  then have "\<lfloor>x\<rfloor> < n" by (simp add: floor_less_iff)
  with round_half_even_le_floor [of x] show ?thesis by simp
qed

lemma round_half_even_mono:
  assumes "x \<le> y"
  shows "round_half_even x \<le> round_half_even y"
proof (cases "\<lfloor>x\<rfloor> = \<lfloor>y\<rfloor>")
  case True
  with assms have "x - of_int \<lfloor>x\<rfloor> \<le> y - of_int \<lfloor>y\<rfloor>" by simp
  with True show ?thesis by (auto simp: round_half_even_def Let_def)
next
  case False
  moreover from assms have "\<lfloor>x\<rfloor> \<le> \<lfloor>y\<rfloor>" by (rule floor_mono)
  ultimately have "\<lfloor>x\<rfloor> + 1 \<le> \<lfloor>y\<rfloor>" by simp
  with round_half_even_le_floor [of x] floor_le_round_half_even [of y]
  show ?thesis by simp
qed

lemma positive_double_nonneg:
  assumes "0 < q"
  shows "0 \<le> positive_double q"
proof -
  let ?ulp = "(2::rat) powi (max (exponent q) (- 1022) - 52)"
  have u: "0 < ?ulp" by simp
  then have "of_int 0 \<le> q / ?ulp" using assms by simp
  then have "0 \<le> round_half_even (q / ?ulp)" by (rule round_half_even_ge)
  then show ?thesis unfolding positive_double_def using u by simp
qed

lemma positive_double_mono:
  assumes "0 < p" and "p \<le> q"
  shows "positive_double p \<le> positive_double q"
proof -
  let ?e = "\<lambda>q. max (exponent q) (- 1022)"
  let ?ulp = "\<lambda>q. (2::rat) powi (?e q - 52)"
  from assms have q: "0 < q" by simp
  have up: "0 < ?ulp p" and uq: "0 < ?ulp q" by simp_all
  from exponent_mono [OF assms] have e: "?e p \<le> ?e q" by simp
  show ?thesis
  proof (cases "?e p = ?e q")
    case True
    then have u: "?ulp p = ?ulp q" by simp
    have "p / ?ulp q \<le> q / ?ulp q" using assms(2) uq by (simp add: divide_right_mono)
    then have "round_half_even (p / ?ulp q) \<le> round_half_even (q / ?ulp q)"
      by (rule round_half_even_mono)
    then have "(of_int (round_half_even (p / ?ulp q)) :: rat) \<le>
               of_int (round_half_even (q / ?ulp q))"
      by (simp only: of_int_le_iff)
    then have "of_int (round_half_even (p / ?ulp q)) * ?ulp q \<le>
               of_int (round_half_even (q / ?ulp q)) * ?ulp q"
      using uq by (intro mult_right_mono) simp_all
    then show ?thesis unfolding positive_double_def u .
  next
    case False
    from exponent_mono [OF assms] False have lt: "?e p < ?e q" by linarith
    then have eq: "?e q = exponent q" by linarith
    have "positive_double p \<le> 2 powi (?e p + 1)"
    proof -
      from exponent_bounds [OF assms(1)] have "p < 2 powi (exponent p + 1)" by simp
      also have "\<dots> \<le> 2 powi (?e p + 1)" by (intro power_int_increasing) simp_all
      also have "\<dots> = of_int (2 ^ 53) * ?ulp p" by (rule powi_53)
      finally have "p / ?ulp p \<le> of_int (2 ^ 53)" using up by (simp only: pos_divide_le_eq)
      then have "round_half_even (p / ?ulp p) \<le> 2 ^ 53" by (rule round_half_even_le)
      then have "(of_int (round_half_even (p / ?ulp p)) :: rat) \<le> of_int (2 ^ 53)"
        by (simp only: of_int_le_iff)
      then have "of_int (round_half_even (p / ?ulp p)) * ?ulp p \<le> of_int (2 ^ 53) * ?ulp p"
        using up by (intro mult_right_mono) simp_all
      also have "\<dots> = 2 powi (?e p + 1)" by (rule powi_53 [symmetric])
      finally show ?thesis unfolding positive_double_def .
    qed
    also have "\<dots> \<le> 2 powi ?e q"
    proof (rule power_int_increasing)
      show "?e p + 1 \<le> ?e q" using lt by linarith
    qed simp
    also have "\<dots> \<le> positive_double q"
    proof -
      have s: "(2::rat) powi ?e q = of_int (2 ^ 52) * ?ulp q" by (rule powi_52)
      from exponent_bounds [OF q] eq have "2 powi ?e q \<le> q" by simp
      then have "of_int (2 ^ 52) * ?ulp q \<le> q" by (simp only: s)
      then have "of_int (2 ^ 52) \<le> q / ?ulp q" using uq by (simp only: pos_le_divide_eq)
      then have "2 ^ 52 \<le> round_half_even (q / ?ulp q)" by (rule round_half_even_ge)
      then have "(of_int (2 ^ 52) :: rat) \<le> of_int (round_half_even (q / ?ulp q))"
        by (simp only: of_int_le_iff)
      then have "of_int (2 ^ 52) * ?ulp q \<le> of_int (round_half_even (q / ?ulp q)) * ?ulp q"
        using uq by (intro mult_right_mono) simp_all
      then show ?thesis unfolding positive_double_def by (simp only: s)
    qed
    finally show ?thesis .
  qed
qed

lemma nearest_double_sign:
  "nearest_double q = (if q = 0 then 0 else sgn q * positive_double \<bar>q\<bar>)"
  by (simp add: nearest_double_def positive_double_def Let_def mult.assoc)

lemma nearest_double_mono:
  assumes "p \<le> q"
  shows "nearest_double p \<le> nearest_double q"
proof -
  consider "0 < p" | "p = 0" "q = 0" | "p = 0" "0 < q" | "p < 0" "q < 0" | "p < 0" "q = 0"
    | "p < 0" "0 < q"
    using assms by linarith
  then show ?thesis
  proof cases
    case 1
    with assms have "0 < q" by simp
    with 1 positive_double_mono [OF 1 assms] show ?thesis
      by (simp add: nearest_double_sign)
  next
    case 2
    then show ?thesis by simp
  next
    case 3
    with positive_double_nonneg [of q] show ?thesis by (simp add: nearest_double_sign)
  next
    case 4
    then have "0 < - q" and "- q \<le> - p" using assms by simp_all
    from positive_double_mono [OF this] 4 show ?thesis
      by (simp add: nearest_double_sign)
  next
    case 5
    with positive_double_nonneg [of "- p"] show ?thesis by (simp add: nearest_double_sign)
  next
    case 6
    with positive_double_nonneg [of "- p"] positive_double_nonneg [of q] show ?thesis
      by (simp add: nearest_double_sign)
  qed
qed

lemma float_Inr: "float q = Inr t \<Longrightarrow> t = of_rat (nearest_double q)"
  by (simp add: float_def Let_def split: if_splits)

lemma float_error: "float q = Inl e \<Longrightarrow> e = OverflowError"
  by (simp add: float_def Let_def split: if_splits)

lemma float_mono:
  assumes "float p = Inr x" and "float q = Inr y" and "p \<le> q"
  shows "x \<le> y"
proof -
  from nearest_double_mono [OF assms(3)]
  have "(of_rat (nearest_double p) :: real) \<le> of_rat (nearest_double q)"
    by (simp only: of_rat_less_eq)
  with float_Inr [OF assms(1)] float_Inr [OF assms(2)] show ?thesis by simp
qed

text \<open>Two offsets with one float: a third, and the double nearest to it.\<close>

lemma float_third:
  "float (1 / 3) = float (6004799503160661 / 18014398509481984)"
  by code_simp

section \<open>Properties of \<open>process_requests\<close>\<close>

lemma process_requests_Inr:
  assumes "process_requests offset rs = Inr b"
  shows "b = bundle_of offset rs \<and> float offset = Inr (timestamp b)"
proof -
  from assms obtain t where t: "float offset = Inr t"
    by (cases "float offset") (simp_all add: process_requests_def)
  from float_Inr [OF t] assms t show ?thesis
    by (auto simp: process_requests_def bundle_of_def Let_def)
qed

lemma process_requests_error: "process_requests offset rs = Inl e \<Longrightarrow> e = OverflowError"
  by (cases "float offset") (auto simp: process_requests_def Let_def dest: float_error)

lemma process_each_Inr:
  "process_each xs = Inr bs \<Longrightarrow>
   bs = map (\<lambda>(offset, requests). bundle_of offset requests) xs \<and>
   (\<forall>k\<in>fst ` set xs. float k = Inr (of_rat (nearest_double k)))"
proof (induction xs arbitrary: bs)
  case Nil
  then show ?case by simp
next
  case (Cons x xs)
  obtain k rs where x: "x = (k, rs)" by (cases x)
  from Cons.prems obtain b bs' where b: "process_requests k rs = Inr b"
    and r: "process_each xs = Inr bs'" and bs: "bs = b # bs'"
    by (auto simp: x split: sum.splits)
  from process_requests_Inr [OF b] have 1: "b = bundle_of k rs"
    and 2: "float k = Inr (timestamp b)" by simp_all
  from float_Inr [OF 2] 2 have 3: "float k = Inr (of_rat (nearest_double k))" by simp
  from Cons.IH [OF r] 1 3 show ?case by (simp add: x bs)
qed

lemma process_each_error: "process_each xs = Inl e \<Longrightarrow> e = OverflowError"
  by (induction xs) (auto split: sum.splits dest: process_requests_error)

lemma process_terminal_event_Inr:
  "process_terminal_event k timespan = Inr bs \<Longrightarrow> bs = terminal_bundles k timespan"
  by (auto simp: process_terminal_event_def terminal_bundles_def
           split: option.splits bound.splits if_splits sum.splits dest: float_Inr)

lemma process_terminal_event_error:
  "process_terminal_event k timespan = Inl e \<Longrightarrow> e = OverflowError"
  by (auto simp: process_terminal_event_def
           split: option.splits bound.splits if_splits sum.splits dest: float_error)

lemma to_osc_bundles_error:
  assumes "to_osc_bundles h ops s timespan = Inl e"
  shows "e = ValueError \<and> collect_requests h (process_timespan_mask ops s timespan) = Inr [] \<or>
         e = OverflowError \<or>
         collect_requests h (process_timespan_mask ops s timespan) = Inl e"
  using assms
  by (auto simp: to_osc_bundles_def Let_def split: sum.splits if_splits
           dest: process_each_error process_terminal_event_error)


lemma command_of_to_osc_message:
  "command_of_type (type_of r) = Some c \<Longrightarrow> command_of (to_osc_message r) = Some c"
  by (cases r) auto

lemma commands_by_type:
  "command_of_type t = Some c \<Longrightarrow>
   map (command_of \<circ> to_osc_message) (requests_by_type rs t) =
   replicate (length (requests_by_type rs t)) (Some c)"
  unfolding requests_by_type_def
  by (induction rs) (auto simp: command_of_to_osc_message)

lemma sorted_concat_replicate:
  fixes f :: "'a \<Rightarrow> nat"
  shows "sorted (map f ts) \<Longrightarrow> sorted (concat (map (\<lambda>t. replicate (n t) (f t)) ts))"
  by (induction ts) (auto simp: sorted_append)

lemma priority_commands_sorted: "sorted (map command_priority (priority_commands rs))"
proof -
  have "sorted (map (\<lambda>t. command_priority (the (command_of_type t))) prioritized_request_types)"
    by (simp add: prioritized_request_types_def)
  from sorted_concat_replicate [OF this]
  show ?thesis by (simp add: priority_commands_def map_concat comp_def)
qed

lemma priority_commands_bound: "c \<in> set (priority_commands rs) \<Longrightarrow> command_priority c \<le> 5"
  unfolding priority_commands_def prioritized_request_types_def
  by auto

lemma prioritized_messages:
  "map command_of (concat (map (\<lambda>t. map to_osc_message (requests_by_type rs t))
                               prioritized_request_types)) =
   map Some (priority_commands rs)"
  unfolding priority_commands_def prioritized_request_types_def
  by (simp add: commands_by_type)

lemma bundle_of_commands:
  "map command_of (contents (bundle_of offset rs)) = map Some (bundle_commands rs)"
  unfolding bundle_of_def bundle_commands_def Let_def
  by (simp add: prioritized_messages)

lemma bundle_commands_sorted: "sorted (map command_priority (bundle_commands rs))"
  unfolding bundle_commands_def
  by (fastforce simp: sorted_append priority_commands_sorted dest: priority_commands_bound)

lemma sorted_nth_less:
  fixes xs :: "nat list"
  assumes "sorted xs" "i < length xs" "j < length xs" "xs ! i < xs ! j"
  shows "i < j"
proof (rule ccontr)
  assume "\<not> i < j"
  then have "j \<le> i" by simp
  with assms(1,2) have "xs ! j \<le> xs ! i" by (simp add: sorted_nth_mono)
  with assms(4) show False by simp
qed

lemma priority_order_receive_before_new:
  assumes "in_priority_order ms" shows "receive_before_new ms"
proof -
  from assms obtain cs where cs: "map command_of ms = map Some cs"
    and s: "sorted (map command_priority cs)" unfolding in_priority_order_def by blast
  have len: "length cs = length ms" using cs by (metis length_map)
  have nth: "\<And>i. i < length ms \<Longrightarrow> command_of (ms ! i) = Some (cs ! i)"
    using cs len by (metis nth_map)
  show ?thesis unfolding receive_before_new_def
  proof (intro allI impI)
    fix i j
    assume a: "i < length ms \<and> j < length ms \<and> command_of (ms ! i) = Some DefinitionReceive \<and>
            command_of (ms ! j) = Some SynthNew"
    then have "cs ! i = DefinitionReceive" "cs ! j = SynthNew" using nth by auto
    then have "map command_priority cs ! i < map command_priority cs ! j"
      using a len by simp
    with s show "i < j" using a len sorted_nth_less [of "map command_priority cs" i j] by simp
  qed
qed

lemma priority_order_free_last:
  assumes "in_priority_order ms" shows "free_last ms"
proof -
  from assms obtain cs where cs: "map command_of ms = map Some cs"
    and s: "sorted (map command_priority cs)" unfolding in_priority_order_def by blast
  have len: "length cs = length ms" using cs by (metis length_map)
  have nth: "\<And>i. i < length ms \<Longrightarrow> command_of (ms ! i) = Some (cs ! i)"
    using cs len by (metis nth_map)
  show ?thesis unfolding free_last_def
  proof (intro allI impI)
    fix i j
    assume a: "i < length ms \<and> j < length ms \<and> command_of (ms ! i) = Some NodeFree \<and>
            command_of (ms ! j) \<noteq> Some NodeFree"
    then have "cs ! i = NodeFree" "cs ! j \<noteq> NodeFree" using nth by auto
    then have "command_priority (cs ! j) < command_priority (cs ! i)"
      by (cases "cs ! j") auto
    then have "map command_priority cs ! j < map command_priority cs ! i"
      using a len by simp
    with s show "j < i" using a len sorted_nth_less [of "map command_priority cs" j i] by simp
  qed
qed

lemma bundle_of_in_priority_order:
  "in_priority_order (contents (bundle_of offset rs))"
  unfolding in_priority_order_def
  using bundle_of_commands bundle_commands_sorted by blast

lemma to_osc_bundles_Inr:
  assumes "to_osc_bundles h ops s timespan = Inr bs"
  obtains request_mapping where
    "collect_requests h (process_timespan_mask ops s timespan) = Inr request_mapping"
    "request_mapping \<noteq> []"
    "bs = map (\<lambda>(offset, requests). bundle_of offset requests)
             (sort_key fst (items (hash_offset h) request_mapping)) @
          terminal_bundles
            (fst (last (sort_key fst (items (hash_offset h) request_mapping)))) timespan"
    "\<forall>k\<in>keys request_mapping. float k = Inr (of_rat (nearest_double k))"
proof (cases "collect_requests h (process_timespan_mask ops s timespan)")
  case (Inl e)
  with assms show ?thesis by (simp add: to_osc_bundles_def)
next
  case (Inr request_mapping)
  let ?items = "sort_key fst (items (hash_offset h) request_mapping)"
  from assms Inr have ne: "request_mapping \<noteq> []"
    by (auto simp: to_osc_bundles_def)
  with assms Inr obtain bs1 bs2 where
    1: "process_each ?items = Inr bs1"
    and 2: "process_terminal_event (fst (last ?items)) timespan = Inr bs2"
    and bs: "bs = bs1 @ bs2"
    by (auto simp: to_osc_bundles_def Let_def split: sum.splits)
  from process_each_Inr [OF 1]
  have b1: "bs1 = map (\<lambda>(offset, requests). bundle_of offset requests) ?items"
    and f: "\<forall>k\<in>fst ` set ?items. float k = Inr (of_rat (nearest_double k))"
    by simp_all
  from f have f': "\<forall>k\<in>keys request_mapping. float k = Inr (of_rat (nearest_double k))"
    by (simp add: keys_def items_def)
  from process_terminal_event_Inr [OF 2]
  have b2: "bs2 = terminal_bundles (fst (last ?items)) timespan" .
  have "bs = map (\<lambda>(offset, requests). bundle_of offset requests) ?items @
             terminal_bundles (fst (last ?items)) timespan"
    by (simp only: bs b1 b2)
  from that [OF Inr ne this f'] show ?thesis .
qed

lemma to_osc_bundles_cases:
  assumes "to_osc_bundles h ops s timespan = Inr bs" "b \<in> set bs"
  shows "(\<exists>offset rs. b = bundle_of offset rs) \<or>
         (\<exists>offset. b \<in> set (terminal_bundles offset timespan))"
proof -
  from assms(1) obtain request_mapping where
    bs: "bs = map (\<lambda>(offset, requests). bundle_of offset requests)
             (sort_key fst (items (hash_offset h) request_mapping)) @
          terminal_bundles
            (fst (last (sort_key fst (items (hash_offset h) request_mapping)))) timespan"
    by (rule to_osc_bundles_Inr)
  from assms(2) [unfolded bs] show ?thesis
    by (auto simp del: set_sort)
qed

lemma terminal_bundles_contents:
  "b \<in> set (terminal_bundles offset timespan) \<Longrightarrow> contents b = [OscMessage (Numeric 0) []]"
  unfolding terminal_bundles_def
  by (auto split: option.splits bound.splits if_splits)

lemma relay_session_bundles:
  "to_osc_bundles insertion_order no_mask relay_session None = Inr relay_bundles"
  by code_simp

text \<open>
  C1. For every session and render range, the commands of every bundle that
  \<open>to_osc_bundles\<close> returns are grouped in the priority order definition-receive, bus-set,
  group-new, synth-new, bus-mapping, parameter-set, node-free (the only other bundle is the
  terminal one, which holds the padding message alone); a definition-receive command precedes
  every synth-new command of its bundle, and node-free commands come after all other
  commands. This holds for every traversal order of the hash containers.
\<close>

theorem C1_priority_order:
  assumes "to_osc_bundles h ops s timespan = Inr bs" and "b \<in> set bs"
  shows "(contents b = [OscMessage (Numeric 0) []] \<or> in_priority_order (contents b)) \<and>
         receive_before_new (contents b) \<and> free_last (contents b)"
proof -
  from to_osc_bundles_cases [OF assms]
  consider offset rs where "b = bundle_of offset rs"
    | "contents b = [OscMessage (Numeric 0) []]"
    using terminal_bundles_contents by blast
  then show ?thesis
  proof cases
    case 1
    then show ?thesis
      using bundle_of_in_priority_order priority_order_receive_before_new
        priority_order_free_last by simp
  next
    case 2
    then show ?thesis by (auto simp: receive_before_new_def free_last_def nth_Cons')
  qed
qed


theorem C1_priority_order_witness:
  "to_osc_bundles insertion_order no_mask relay_session None = Inr relay_bundles \<and>
   relay_bundles ! 1 \<in> set relay_bundles \<and>
   in_priority_order (contents (relay_bundles ! 1)) \<and>
   receive_before_new (contents (relay_bundles ! 0)) \<and>
   free_last (contents (relay_bundles ! 1))"
proof -
  have m0: "relay_bundles ! 0 \<in> set relay_bundles" and m1: "relay_bundles ! 1 \<in> set relay_bundles"
    by (simp_all add: relay_bundles_def)
  have "contents (relay_bundles ! 1) \<noteq> [OscMessage (Numeric 0) []]"
    by (simp add: relay_bundles_def)
  with C1_priority_order [OF relay_session_bundles m0]
    C1_priority_order [OF relay_session_bundles m1] relay_session_bundles m1
  show ?thesis by simp
qed

section \<open>Properties of dictionaries\<close>

lemma keys_Nil [simp]: "keys [] = {}"
  by (simp add: keys_def)

lemma keys_Cons [simp]: "keys ((k, v) # d) = insert k (keys d)"
  by (simp add: keys_def)

lemma dict_get_Cons [simp]:
  "dict_get ((k, v) # d) k' dflt = (if k' = k then v else dict_get d k' dflt)"
  by (simp add: dict_get_def)

lemma keys_empty_iff: "keys d = {} \<longleftrightarrow> d = []"
  by (simp add: keys_def)

lemma dict_get_Nil [simp]: "dict_get [] k dflt = dflt"
  by (simp add: dict_get_def)

lemma map_of_eq_None_keys: "map_of d k = None \<longleftrightarrow> k \<notin> keys d"
  by (simp add: keys_def map_of_eq_None_iff)

lemma dict_get_not_in_keys: "k \<notin> keys d \<Longrightarrow> dict_get d k dflt = dflt"
  by (simp add: dict_get_def map_of_eq_None_keys [symmetric])

lemma keys_update: "keys (AList.update k v d) = insert k (keys d)"
  by (simp add: keys_def AList.dom_update [unfolded dom_map_of_conv_image_fst])

lemma dict_get_update:
  "dict_get (AList.update k v d) k' dflt = (if k' = k then v else dict_get d k' dflt)"
  by (simp add: dict_get_def AList.update_conv')

lemma keys_setdefault_extend: "keys (setdefault_extend k xs d) = insert k (keys d)"
  by (simp add: setdefault_extend_def keys_update)

lemma dict_get_setdefault_extend:
  "dict_get (setdefault_extend k xs d) k' [] =
   (if k' = k then dict_get d k [] @ xs else dict_get d k' [])"
  by (simp add: setdefault_extend_def dict_get_update)

lemma distinct_setdefault_extend:
  "distinct (map fst d) \<Longrightarrow> distinct (map fst (setdefault_extend k xs d))"
  by (simp add: setdefault_extend_def AList.distinct_update)

lemma keys_items [simp]: "keys (items h d) = keys d"
  by (simp add: keys_def items_def)

lemma distinct_items [simp]: "distinct (map fst (items h d)) = distinct (map fst d)"
proof -
  have "mset (map fst (items h d)) = mset (map fst d)"
    by (simp add: items_def)
  then show ?thesis by (metis distinct_count_atmost_1 set_mset_mset)
qed

lemma set_items [simp]: "set (items h d) = set d"
  by (simp add: items_def)

lemma map_of_items: "distinct (map fst d) \<Longrightarrow> map_of (items h d) = map_of d"
  by (rule map_of_inject_set [THEN iffD2]) simp_all

lemma dict_get_items: "distinct (map fst d) \<Longrightarrow> dict_get (items h d) k dflt = dict_get d k dflt"
  by (simp add: dict_get_def map_of_items)

text \<open>A dictionary with distinct keys, sorted by key, is determined by its keys and values.\<close>

lemma dict_entries:
  assumes "distinct (map fst d)"
  shows "set d = (\<lambda>k. (k, dict_get d k dflt)) ` keys d"
proof -
  have "\<And>k v. (k, v) \<in> set d \<Longrightarrow> dict_get d k dflt = v"
    using assms by (simp add: dict_get_def)
  then show ?thesis by (force simp: keys_def)
qed

lemma sorted_items:
  fixes d :: "('k::linorder \<times> 'v) list"
  assumes "distinct (map fst d)"
  shows "sort_key fst (items h d) =
         map (\<lambda>k. (k, dict_get d k dflt)) (sorted_list_of_set (keys d))"
proof (rule map_sorted_distinct_set_unique [where f = fst])
  let ?r = "map (\<lambda>k. (k, dict_get d k dflt)) (sorted_list_of_set (keys d))"
  have fin: "finite (keys d)" by (simp add: keys_def)
  have m: "map fst ?r = sorted_list_of_set (keys d)"
    by (simp add: comp_def)
  show "sorted (map fst (sort_key fst (items h d)))" by simp
  show "distinct (map fst (sort_key fst (items h d)))"
    using assms by (metis distinct_items distinct_sort distinct_map set_sort)
  show "sorted (map fst ?r)" unfolding m by simp
  show "distinct (map fst ?r)" unfolding m by simp
  show s: "set (sort_key fst (items h d)) = set ?r"
    using dict_entries [OF assms, of dflt] fin by simp
  have "inj_on fst (set d)"
    using assms by (simp add: distinct_map)
  then show "inj_on fst (set (sort_key fst (items h d)) \<union> set ?r)"
    unfolding s [symmetric] by simp
qed

subsection \<open>Extending a request mapping\<close>

lemma keys_extend_requests: "keys (extend_requests xs rm) = keys rm \<union> keys xs"
  by (induction xs rm rule: extend_requests.induct)
     (auto simp: keys_setdefault_extend)

lemma distinct_extend_requests:
  "distinct (map fst rm) \<Longrightarrow> distinct (map fst (extend_requests xs rm))"
  by (induction xs rm rule: extend_requests.induct) (auto simp: distinct_setdefault_extend)

lemma dict_get_extend_requests:
  "distinct (map fst xs) \<Longrightarrow>
   dict_get (extend_requests xs rm) k [] = dict_get rm k [] @ dict_get xs k []"
proof (induction xs rm rule: extend_requests.induct)
  case (1 rm)
  then show ?case by simp
next
  case (2 offset synth_requests rest rm)
  then have "offset \<notin> keys rest" by (simp add: keys_def)
  with 2 show ?case
    by (simp add: dict_get_setdefault_extend dict_get_not_in_keys)
qed

section \<open>Properties of multi-output expansion\<close>

lemma UGenArray_init_nonempty: "UGenArray_init us = Inr a \<Longrightarrow> ugens a = us \<and> us \<noteq> []"
  by (auto simp: UGenArray_init_def split: if_splits)

lemma UGenArray_init_map:
  "ugens self \<noteq> [] \<Longrightarrow> length_preserved self (UGenArray_init (map f (ugens self)))"
  by (simp add: UGenArray_init_def length_preserved_def UGenArray_len_def)

lemma new_expanded_Array:
  "new_expanded e = Inr (Array a) \<Longrightarrow> ugens a = flatten_output_proxies e \<and> ugens a \<noteq> []"
  by (auto simp: new_expanded_def Let_def dest: UGenArray_init_nonempty
           split: if_splits sum.splits)

text \<open>
  C10, as stated, fails for a flattened sequence without any output proxy: the claim has a
  UGen array returned whenever the sequence does not hold exactly one proxy, but the
  constructor of the array asserts non-emptiness, so the construction raises
  \<^verbatim>\<open>AssertionError\<close>.
\<close>

theorem C10_new_expanded_counterexample:
  "length (flatten_output_proxies (Single silent_ugen)) \<noteq> 1 \<and>
   new_expanded (Single silent_ugen) = Inl AssertionError"
  by (simp add: new_expanded_def flatten_output_proxies_def ugen_outputs_def silent_ugen_def
        UGenArray_init_def)

text \<open>
  C10, amended. The output proxies of all instances are flattened into one sequence. If it
  holds exactly one proxy, that proxy is returned; if it holds two or more, a UGen array of
  exactly these proxies is returned; if it is empty, the construction fails with the
  assertion error of the array constructor. Every array returned is non-empty, and each of its
  elementwise arithmetic methods returns an array of the same length.
\<close>

theorem C10_new_expanded:
  "(length (flatten_output_proxies e) = 1 \<longrightarrow>
      new_expanded e = Inr (Proxy (hd (flatten_output_proxies e)))) \<and>
   (2 \<le> length (flatten_output_proxies e) \<longrightarrow>
      new_expanded e = Inr (Array (UGenArray (flatten_output_proxies e)))) \<and>
   (flatten_output_proxies e = [] \<longrightarrow> new_expanded e = Inl AssertionError) \<and>
   (new_expanded e = Inr (Array a) \<longrightarrow>
      UGenArray_len a = length (flatten_output_proxies e) \<and> 0 < UGenArray_len a \<and>
      length_preserved a (UGenArray_add add a expr) \<and>
      length_preserved a (UGenArray_div div' a expr) \<and>
      length_preserved a (UGenArray_mod mod' a expr) \<and>
      length_preserved a (UGenArray_mul mul a expr) \<and>
      length_preserved a (UGenArray_neg neg a) \<and>
      length_preserved a (UGenArray_sub sub a expr))"
proof (intro conjI impI)
  assume "length (flatten_output_proxies e) = 1"
  then show "new_expanded e = Inr (Proxy (hd (flatten_output_proxies e)))"
    by (cases "flatten_output_proxies e") (simp_all add: new_expanded_def)
next
  assume "2 \<le> length (flatten_output_proxies e)"
  then show "new_expanded e = Inr (Array (UGenArray (flatten_output_proxies e)))"
    by (cases "flatten_output_proxies e") (auto simp: new_expanded_def UGenArray_init_def Let_def)
next
  assume "flatten_output_proxies e = []"
  then show "new_expanded e = Inl AssertionError"
    by (simp add: new_expanded_def UGenArray_init_def)
next
  assume a: "new_expanded e = Inr (Array a)"
  from new_expanded_Array [OF a]
  have eq: "ugens a = flatten_output_proxies e" and ne: "ugens a \<noteq> []"
    by blast+
  show "UGenArray_len a = length (flatten_output_proxies e)"
    by (simp add: UGenArray_len_def eq)
  show "0 < UGenArray_len a"
    using ne by (simp add: UGenArray_len_def)
  show "length_preserved a (UGenArray_add add a expr)"
    unfolding UGenArray_add_def by (rule UGenArray_init_map [OF ne])
  show "length_preserved a (UGenArray_div div' a expr)"
    unfolding UGenArray_div_def by (rule UGenArray_init_map [OF ne])
  show "length_preserved a (UGenArray_mod mod' a expr)"
    unfolding UGenArray_mod_def by (rule UGenArray_init_map [OF ne])
  show "length_preserved a (UGenArray_mul mul a expr)"
    unfolding UGenArray_mul_def by (rule UGenArray_init_map [OF ne])
  show "length_preserved a (UGenArray_neg neg a)"
    unfolding UGenArray_neg_def by (rule UGenArray_init_map [OF ne])
  show "length_preserved a (UGenArray_sub sub a expr)"
    unfolding UGenArray_sub_def by (rule UGenArray_init_map [OF ne])
qed

lemma stereo_expanded:
  "new_expanded (Single stereo_ugen) =
   Inr (Array (UGenArray [OutputProxy stereo_ugen 0, OutputProxy stereo_ugen 1]))"
  by code_simp

lemma mono_flatten:
  "flatten_output_proxies (Expanded [\<lparr>ugen_uid = 3, channel_count = 1\<rparr>, silent_ugen]) =
   [OutputProxy \<lparr>ugen_uid = 3, channel_count = 1\<rparr> 0]"
  by code_simp

theorem C10_new_expanded_witness:
  "new_expanded (Expanded [\<lparr>ugen_uid = 3, channel_count = 1\<rparr>, silent_ugen]) =
     Inr (Proxy (OutputProxy \<lparr>ugen_uid = 3, channel_count = 1\<rparr> 0)) \<and>
   new_expanded (Single stereo_ugen) =
     Inr (Array (UGenArray [OutputProxy stereo_ugen 0, OutputProxy stereo_ugen 1])) \<and>
   length_preserved (UGenArray [OutputProxy stereo_ugen 0, OutputProxy stereo_ugen 1])
     (UGenArray_add (\<lambda>x (k::nat). (x, k))
        (UGenArray [OutputProxy stereo_ugen 0, OutputProxy stereo_ugen 1]) 5)"
proof -
  have "length (flatten_output_proxies
          (Expanded [\<lparr>ugen_uid = 3, channel_count = 1\<rparr>, silent_ugen])) = 1"
    using mono_flatten by simp
  with C10_new_expanded
         [THEN conjunct1, rule_format,
          of "Expanded [\<lparr>ugen_uid = 3, channel_count = 1\<rparr>, silent_ugen]"]
  have one: "new_expanded (Expanded [\<lparr>ugen_uid = 3, channel_count = 1\<rparr>, silent_ugen]) =
     Inr (Proxy (OutputProxy \<lparr>ugen_uid = 3, channel_count = 1\<rparr> 0))"
    using mono_flatten by simp
  from C10_new_expanded
          [of "Single stereo_ugen"
              "UGenArray [OutputProxy stereo_ugen 0, OutputProxy stereo_ugen 1]"
              "\<lambda>x (k::nat). (x, k)" 5]
       stereo_expanded
  have two: "length_preserved (UGenArray [OutputProxy stereo_ugen 0, OutputProxy stereo_ugen 1])
     (UGenArray_add (\<lambda>x (k::nat). (x, k))
        (UGenArray [OutputProxy stereo_ugen 0, OutputProxy stereo_ugen 1]) 5)"
    by blast
  from one two stereo_expanded show ?thesis by blast
qed

section \<open>Properties of the collecting passes\<close>

lemma add_bus_requests_extend:
  "add_bus_requests xs rm = extend_requests (bus_requests xs) rm"
  by (induction xs rm rule: add_bus_requests.induct) (simp_all add: bus_requests_def)

lemma add_synthdef_requests_extend:
  "add_synthdef_requests xs rm = extend_requests (synthdef_requests xs) rm"
  by (induction xs rm rule: add_synthdef_requests.induct) (simp_all add: synthdef_requests_def)

lemma map_fst_bus_requests [simp]: "map fst (bus_requests d) = map fst d"
  by (induction d) (auto simp: bus_requests_def)

lemma map_fst_synthdef_requests [simp]: "map fst (synthdef_requests d) = map fst d"
  by (induction d) (auto simp: synthdef_requests_def)

lemma keys_map_fst: "keys d = set (map fst d)"
  by (simp add: keys_def)

lemma keys_bus_requests [simp]: "keys (bus_requests d) = keys d"
  by (simp add: keys_map_fst)

lemma keys_synthdef_requests [simp]: "keys (synthdef_requests d) = keys d"
  by (simp add: keys_map_fst)

lemma dict_get_bus_requests:
  "dict_get (bus_requests d) k [] =
   (case map_of d k of None \<Rightarrow> [] | Some evs \<Rightarrow> [ControlBusSetRequest (sort_key fst evs)])"
  by (induction d) (auto simp: bus_requests_def dict_get_def)

lemma dict_get_synthdef_requests:
  "dict_get (synthdef_requests d) k [] =
   (case map_of d k of None \<Rightarrow> []
    | Some sds \<Rightarrow> [SynthDefReceiveRequest (sort_key anonymous_name sds)])"
  by (induction d) (auto simp: synthdef_requests_def dict_get_def)


subsection \<open>The requests of one synth\<close>

lemma distinct_record_settings:
  "distinct (map fst rm) \<Longrightarrow> distinct (map fst (record_settings n es rm))"
  by (induction n es rm rule: record_settings.induct) (auto simp: distinct_setdefault_extend)

lemma keys_record_settings: "keys (record_settings n es rm) = keys rm \<union> fst ` set es"
  by (induction n es rm rule: record_settings.induct) (auto simp: keys_setdefault_extend)

lemma distinct_requests_of_synth: "distinct (map fst (requests_of_synth n x))"
  by (auto simp: requests_of_synth_def Let_def distinct_record_settings distinct_setdefault_extend
           split: option.splits)

lemma keys_requests_of_synth:
  "keys (requests_of_synth n x) =
   insert (start_offset x) (fst ` set (synth_events x) \<union> set_option (stop_offset x))"
  by (auto simp: requests_of_synth_def Let_def keys_record_settings keys_setdefault_extend
           split: option.splits)

subsection \<open>The loop over the synths\<close>

lemma collect_each_synth_Inr:
  assumes "\<forall>x\<in>set xs. id_mapping (SynthKey x) \<noteq> None"
  shows "\<exists>rm'. collect_each_synth h id_mapping xs rm = Inr rm' \<and>
           keys rm' = keys rm \<union> (\<Union>x\<in>set xs. keys (requests_of_synth (node_id_of id_mapping x) x)) \<and>
           (distinct (map fst rm) \<longrightarrow> distinct (map fst rm')) \<and>
           (\<forall>k. dict_get rm' k [] = dict_get rm k [] @ synth_requests_at id_mapping xs k)"
  using assms
proof (induction xs arbitrary: rm)
  case Nil
  then show ?case by (simp add: synth_requests_at_def)
next
  case (Cons x xs)
  from Cons.prems obtain n where n: "id_mapping (SynthKey x) = Some n" by auto
  let ?d = "requests_of_synth n x"
  let ?rm = "extend_requests (items (hash_offset h) ?d) rm"
  have nid: "node_id_of id_mapping x = n" by (simp add: node_id_of_def n)
  from Cons.IH [of ?rm] Cons.prems obtain rm' where
    r: "collect_each_synth h id_mapping xs ?rm = Inr rm'"
    and k: "keys rm' = keys ?rm \<union> (\<Union>x\<in>set xs. keys (requests_of_synth (node_id_of id_mapping x) x))"
    and d: "distinct (map fst ?rm) \<longrightarrow> distinct (map fst rm')"
    and g: "\<forall>k. dict_get rm' k [] = dict_get ?rm k [] @ synth_requests_at id_mapping xs k"
    by auto
  have g': "\<And>k. dict_get ?rm k [] = dict_get rm k [] @ dict_get ?d k []"
    by (simp add: dict_get_extend_requests distinct_requests_of_synth dict_get_items)
  have "collect_each_synth h id_mapping (x # xs) rm = Inr rm'"
    by (simp add: synth_collect_requests_def n r)
  moreover have "keys rm' = keys rm \<union> (\<Union>x\<in>set (x # xs). keys (requests_of_synth (node_id_of id_mapping x) x))"
    unfolding k by (auto simp: keys_extend_requests nid)
  moreover have "distinct (map fst rm) \<longrightarrow> distinct (map fst rm')"
    using d by (simp add: distinct_extend_requests)
  moreover have "\<forall>k. dict_get rm' k [] = dict_get rm k [] @ synth_requests_at id_mapping (x # xs) k"
    using g g' by (simp add: synth_requests_at_def nid)
  ultimately show ?case by blast
qed

subsection \<open>Distinct keys of the intermediate dictionaries\<close>

lemma distinct_record_bus_events:
  "distinct (map fst d) \<Longrightarrow> distinct (map fst (record_bus_events i es d))"
  by (induction i es d rule: record_bus_events.induct) (auto simp: AList.distinct_update)

lemma distinct_collect_bus_events:
  "collect_bus_events id_mapping bs d = Inr d' \<Longrightarrow> distinct (map fst d) \<Longrightarrow> distinct (map fst d')"
  by (induction id_mapping bs d rule: collect_bus_events.induct)
     (auto simp: distinct_record_bus_events split: if_splits option.splits)

lemma distinct_note_start_events:
  "distinct (map fst d) \<Longrightarrow> distinct (map fst (note_start_events es d))"
  by (induction es d rule: note_start_events.induct) (auto simp: AList.distinct_update)

lemma distinct_note_simultaneities:
  "distinct (map fst d) \<Longrightarrow> distinct (map fst (note_simultaneities h sims d))"
  by (induction h sims d rule: note_simultaneities.induct) (auto simp: distinct_note_start_events)

lemma distinct_synthdefs_to_offsets: "distinct (map fst (synthdefs_to_offsets h s))"
  by (simp add: synthdefs_to_offsets_def distinct_note_simultaneities)

lemma distinct_group_synthdefs:
  "distinct (map fst d) \<Longrightarrow> distinct (map fst (group_synthdefs xs d))"
  by (induction xs d rule: group_synthdefs.induct) (auto simp: distinct_setdefault_extend)

lemma distinct_offsets_to_synthdefs: "distinct (map fst (offsets_to_synthdefs h s))"
  by (simp add: offsets_to_synthdefs_def distinct_group_synthdefs)


subsection \<open>The id mapping of the synths\<close>

lemma assign_node_ids_dom:
  "assign_node_ids ts a m k = None \<longleftrightarrow> m k = None \<and> k \<notin> SynthKey ` set ts"
proof (induction ts arbitrary: a m)
  case Nil
  then show ?case by simp
next
  case (Cons t ts)
  show ?case
  proof (cases "m (SynthKey t) = None")
    case True
    then show ?thesis
      by (auto simp: Cons.IH allocate_node_id_def)
  next
    case False
    then show ?thesis
      by (auto simp: Cons.IH)
  qed
qed

lemma build_synth_id_mapping_defined:
  "x \<in> set (synths s) \<Longrightarrow> build_synth_id_mapping s (SynthKey x) \<noteq> None"
  unfolding build_synth_id_mapping_def assign_node_ids_dom sorted_timespans_def
  by simp

lemma enumerate_buses_SynthKey [simp]: "enumerate_buses n bs m (SynthKey x) = m (SynthKey x)"
  by (induction bs arbitrary: n m) simp_all

lemma assign_block_SynthKey [simp]: "assign_block b ids m (SynthKey x) = m (SynthKey x)"
  by (induction ids arbitrary: m) simp_all

lemma allocate_buses_SynthKey:
  "allocate_buses bs audio control m = Inr m' \<Longrightarrow> m' (SynthKey x) = m (SynthKey x)"
proof (induction bs arbitrary: audio control m)
  case Nil
  then show ?case by simp
next
  case (Cons b bs)
  show ?case
  proof (cases "m (BusKey b) \<noteq> None")
    case True
    with Cons show ?thesis by simp
  next
    case False
    with Cons.prems show ?thesis
      by (auto simp: Let_def split: option.splits prod.splits if_splits dest!: Cons.IH)
  qed
qed

lemma build_id_mapping_SynthKey:
  assumes "build_id_mapping s = Inr id_mapping"
  shows "id_mapping (SynthKey x) = build_synth_id_mapping s (SynthKey x)"
proof -
  from assms obtain bus_ids where b: "build_bus_id_mapping s = Inr bus_ids"
    and i: "id_mapping = build_synth_id_mapping s ++ bus_ids"
    by (auto simp: build_id_mapping_def split: sum.splits)
  from b have "bus_ids (SynthKey x) = None"
    by (auto simp: build_bus_id_mapping_def Let_def dest!: allocate_buses_SynthKey [where x = x]
             split: option.splits)
  then show ?thesis by (simp add: i map_add_def)
qed

lemma build_id_mapping_defined:
  "build_id_mapping s = Inr id_mapping \<Longrightarrow> x \<in> set (synths s) \<Longrightarrow>
   id_mapping (SynthKey x) \<noteq> None"
  by (simp add: build_id_mapping_SynthKey build_synth_id_mapping_defined)

subsection \<open>The request mapping of a session\<close>

lemma collect_requests_Inr:
  assumes "collect_requests h s = Inr rm"
  obtains id_mapping events_by_offset where
    "build_id_mapping s = Inr id_mapping"
    "collect_bus_events id_mapping (buses s) [] = Inr events_by_offset"
    "distinct (map fst events_by_offset)"
    "distinct (map fst rm)"
    "keys rm = keys events_by_offset \<union> keys (offsets_to_synthdefs h s) \<union>
       (\<Union>x\<in>set (synths s). keys (requests_of_synth (node_id_of id_mapping x) x))"
    "\<And>k. dict_get rm k [] =
       dict_get (bus_requests events_by_offset) k [] @
       dict_get (synthdef_requests (offsets_to_synthdefs h s)) k [] @
       synth_requests_at id_mapping (sorted_synths id_mapping s) k"
proof -
  from assms obtain id_mapping where i: "build_id_mapping s = Inr id_mapping"
    by (auto simp: collect_requests_def split: sum.splits)
  from assms i obtain rm1 where r1: "collect_bus_requests h s [] id_mapping = Inr rm1"
    and r3: "collect_synth_requests h s (collect_synthdef_requests h s rm1) id_mapping = Inr rm"
    by (auto simp: collect_requests_def split: sum.splits)
  from r1 obtain ebo where e: "collect_bus_events id_mapping (buses s) [] = Inr ebo"
    and rm1: "rm1 = extend_requests (bus_requests (items (hash_offset h) ebo)) []"
    by (auto simp: collect_bus_requests_def add_bus_requests_extend split: sum.splits)
  have de: "distinct (map fst ebo)"
    using distinct_collect_bus_events [OF e] by simp
  let ?d2 = "offsets_to_synthdefs h s"
  let ?rm2 = "extend_requests (synthdef_requests (items (hash_offset h) ?d2)) rm1"
  have rm2: "collect_synthdef_requests h s rm1 = ?rm2"
    by (simp add: collect_synthdef_requests_def add_synthdef_requests_extend)
  have d1: "distinct (map fst rm1)"
    unfolding rm1 by (rule distinct_extend_requests) simp
  have d2: "distinct (map fst ?rm2)"
    by (rule distinct_extend_requests [OF d1])
  have k1: "keys rm1 = keys ebo"
    unfolding rm1 by (simp add: keys_extend_requests)
  have k2: "keys ?rm2 = keys ebo \<union> keys ?d2"
    by (simp add: keys_extend_requests k1)
  have g1: "\<And>k. dict_get rm1 k [] = dict_get (bus_requests ebo) k []"
    unfolding rm1
    by (simp add: dict_get_extend_requests de dict_get_bus_requests map_of_items)
  have g2: "\<And>k. dict_get ?rm2 k [] =
              dict_get (bus_requests ebo) k [] @ dict_get (synthdef_requests ?d2) k []"
    by (simp add: dict_get_extend_requests distinct_offsets_to_synthdefs g1
          dict_get_synthdef_requests map_of_items)
  have all: "\<forall>x\<in>set (sorted_synths id_mapping s). id_mapping (SynthKey x) \<noteq> None"
    using build_id_mapping_defined [OF i] by (simp add: sorted_synths_def)
  then have "\<not> list_ex (\<lambda>x. id_mapping (SynthKey x) = None) (synths s)"
    by (simp add: list_ex_iff sorted_synths_def)
  with r3 have r3': "collect_each_synth h id_mapping (sorted_synths id_mapping s) ?rm2 = Inr rm"
    by (simp add: collect_synth_requests_def rm2 sorted_synths_def)
  from collect_each_synth_Inr [OF all, of h ?rm2] r3'
  have k3: "keys rm = keys ?rm2 \<union>
              (\<Union>x\<in>set (sorted_synths id_mapping s).
                 keys (requests_of_synth (node_id_of id_mapping x) x))"
    and d3: "distinct (map fst rm)"
    and g3: "\<And>k. dict_get rm k [] =
              dict_get ?rm2 k [] @ synth_requests_at id_mapping (sorted_synths id_mapping s) k"
    using d2 by auto
  show ?thesis
  proof (rule that [OF i e de d3])
    show "keys rm = keys ebo \<union> keys ?d2 \<union>
       (\<Union>x\<in>set (synths s). keys (requests_of_synth (node_id_of id_mapping x) x))"
      unfolding k3 k2 by (simp add: sorted_synths_def)
    show "\<And>k. dict_get rm k [] =
       dict_get (bus_requests ebo) k [] @
       dict_get (synthdef_requests ?d2) k [] @
       synth_requests_at id_mapping (sorted_synths id_mapping s) k"
      by (simp add: g3 g2)
  qed
qed

section \<open>The bundles in canonical form\<close>

lemma last_sorted_list_of_set:
  fixes A :: "'a::linorder set"
  assumes "finite A" "A \<noteq> {}"
  shows "last (sorted_list_of_set A) = Max A"
proof -
  let ?xs = "sorted_list_of_set A"
  have ne: "?xs \<noteq> []" using assms by simp
  have "\<forall>y\<in>set ?xs. y \<le> last ?xs"
  proof
    fix y assume "y \<in> set ?xs"
    then obtain i where i: "i < length ?xs" "?xs ! i = y" by (auto simp: in_set_conv_nth)
    have "?xs ! i \<le> ?xs ! (length ?xs - 1)"
      using i ne by (intro sorted_nth_mono) auto
    then show "y \<le> last ?xs" using i ne by (simp add: last_conv_nth)
  qed
  moreover have "last ?xs \<in> A" using ne assms last_in_set [OF ne] by simp
  ultimately show ?thesis using assms by (intro Max_eqI [symmetric]) auto
qed

lemma to_osc_bundles_canonical:
  assumes "to_osc_bundles h ops s timespan = Inr bs"
  obtains rm where
    "collect_requests h (process_timespan_mask ops s timespan) = Inr rm"
    "keys rm \<noteq> {}"
    "bs = map (\<lambda>k. bundle_of k (dict_get rm k [])) (sorted_list_of_set (keys rm)) @
          terminal_bundles (Max (keys rm)) timespan"
    "bundle_offsets h ops s timespan = sorted_list_of_set (keys rm)"
    "\<forall>k\<in>keys rm. float k = Inr (of_rat (nearest_double k))"
proof -
  from assms obtain rm where
    c: "collect_requests h (process_timespan_mask ops s timespan) = Inr rm"
    and ne: "rm \<noteq> []"
    and bs: "bs = map (\<lambda>(offset, requests). bundle_of offset requests)
             (sort_key fst (items (hash_offset h) rm)) @
          terminal_bundles (fst (last (sort_key fst (items (hash_offset h) rm)))) timespan"
    and f: "\<forall>k\<in>keys rm. float k = Inr (of_rat (nearest_double k))"
    by (rule to_osc_bundles_Inr)
  from c have d: "distinct (map fst rm)" by (rule collect_requests_Inr)
  have k: "keys rm \<noteq> {}" using ne by (simp add: keys_empty_iff)
  have fin: "finite (keys rm)" by (simp add: keys_def)
  have sl: "sorted_list_of_set (keys rm) \<noteq> []" using k fin by simp
  note si = sorted_items [OF d, of "hash_offset h" "[]"]
  have "fst (last (sort_key fst (items (hash_offset h) rm))) = Max (keys rm)"
    unfolding si using sl last_sorted_list_of_set [OF fin k] by (simp add: last_map)
  with bs have b: "bs = map (\<lambda>k. bundle_of k (dict_get rm k []))
                       (sorted_list_of_set (keys rm)) @
                     terminal_bundles (Max (keys rm)) timespan"
    unfolding si by (simp add: comp_def)
  have o: "bundle_offsets h ops s timespan = sorted_list_of_set (keys rm)"
    by (simp add: bundle_offsets_def c si comp_def)
  from that [OF c k b o f] show ?thesis .
qed

lemma timestamp_bundle_of [simp]:
  "timestamp (bundle_of k rs) = of_rat (nearest_double k)"
  by (simp add: bundle_of_def Let_def)

lemma terminal_bundles_cases:
  "terminal_bundles k timespan = [] \<or>
   (\<exists>stop. k < stop \<and> timespan_stop_offset (the timespan) = Offset stop \<and> timespan \<noteq> None \<and>
      terminal_bundles k timespan =
        [\<lparr>timestamp = of_rat (nearest_double stop),
          contents = [OscMessage (Numeric 0) []]\<rparr>])"
  by (auto simp: terminal_bundles_def split: option.splits bound.splits)

lemma sorted_map_mono:
  fixes f :: "'a::linorder \<Rightarrow> 'b::linorder"
  assumes "\<And>x y. x \<le> y \<Longrightarrow> f x \<le> f y" and "sorted xs"
  shows "sorted (map f xs)"
  using assms(2) by (induction xs) (auto intro: assms(1))

lemma real_nearest_double_mono:
  "p \<le> q \<Longrightarrow> (of_rat (nearest_double p) :: real) \<le> of_rat (nearest_double q)"
  using nearest_double_mono [of p q] by (simp only: of_rat_less_eq)

lemma to_osc_bundles_ascending:
  assumes "to_osc_bundles h ops s timespan = Inr bs"
  shows "sorted (map timestamp bs)"
proof -
  from assms obtain rm where
    bs: "bs = map (\<lambda>k. bundle_of k (dict_get rm k [])) (sorted_list_of_set (keys rm)) @
          terminal_bundles (Max (keys rm)) timespan"
    and k: "keys rm \<noteq> {}"
    by (rule to_osc_bundles_canonical)
  let ?f = "\<lambda>k. (of_rat (nearest_double k) :: real)"
  have fin: "finite (keys rm)" by (simp add: keys_def)
  have m: "map timestamp bs = map ?f (sorted_list_of_set (keys rm)) @
             map timestamp (terminal_bundles (Max (keys rm)) timespan)"
    by (simp add: bs comp_def)
  have s: "sorted (map ?f (sorted_list_of_set (keys rm)))"
    by (rule sorted_map_mono) (simp_all add: real_nearest_double_mono)
  from terminal_bundles_cases [of "Max (keys rm)" timespan]
  show ?thesis
  proof
    assume "terminal_bundles (Max (keys rm)) timespan = []"
    then show ?thesis unfolding m using s by simp
  next
    assume "\<exists>stop. Max (keys rm) < stop \<and> timespan_stop_offset (the timespan) = Offset stop \<and>
      timespan \<noteq> None \<and>
      terminal_bundles (Max (keys rm)) timespan =
        [\<lparr>timestamp = of_rat (nearest_double stop),
          contents = [OscMessage (Numeric 0) []]\<rparr>]"
    then obtain stop where lt: "Max (keys rm) < stop"
      and t: "terminal_bundles (Max (keys rm)) timespan =
        [\<lparr>timestamp = of_rat (nearest_double stop),
          contents = [OscMessage (Numeric 0) []]\<rparr>]"
      by blast
    have "\<forall>x\<in>keys rm. x \<le> stop"
      using lt fin by (meson Max_ge le_less_trans less_imp_le)
    then have "\<forall>x\<in>keys rm. ?f x \<le> ?f stop"
      by (simp add: real_nearest_double_mono)
    then show ?thesis
      unfolding m t using s fin
      by (simp add: sorted_append)
  qed
qed

subsection \<open>The datagram\<close>

lemma four_bytes:
  fixes n :: nat
  shows "n div 16777216 * 16777216 + n div 65536 mod 256 * 65536 +
         n div 256 mod 256 * 256 + n mod 256 = n"
proof -
  have d2: "n div 256 div 256 = n div 65536" by (simp add: div_mult2_eq [symmetric])
  have d3: "n div 65536 div 256 = n div 16777216" by (simp add: div_mult2_eq [symmetric])
  show ?thesis
    using div_mult_mod_eq [of n 256] div_mult_mod_eq [of "n div 256" 256]
      div_mult_mod_eq [of "n div 65536" 256] d2 d3
    by linarith
qed

lemma struct_pack_i_prefix:
  assumes "n < 2 ^ 31"
  shows "\<exists>p. struct_pack_i n = Inr p \<and> length p = 4 \<and> big_endian p = n"
proof -
  have "n div 16777216 < 256" using assms by simp
  then have "n div 16777216 mod 256 = n div 16777216" by simp
  then have "big_endian [of_nat (n div 2 ^ 24), of_nat (n div 2 ^ 16 mod 256),
                of_nat (n div 2 ^ 8 mod 256), of_nat (n mod 256)] =
        n div 16777216 * 16777216 + n div 65536 mod 256 * 65536 +
         n div 256 mod 256 * 256 + n mod 256"
    by (simp add: big_endian_def unat_of_nat)
  then show ?thesis
    using assms by (simp add: struct_pack_i_def four_bytes)
qed

lemma join_datagrams_records:
  assumes "\<forall>b\<in>set bs. length (encode b) < 2 ^ 31"
  shows "\<exists>prefixes. length prefixes = length bs \<and>
           (\<forall>i<length bs. length (prefixes ! i) = 4 \<and>
                          big_endian (prefixes ! i) = length (encode (bs ! i))) \<and>
           join_datagrams encode bs = Inr (concat (map2 (\<lambda>p b. p @ encode b) prefixes bs))"
  using assms
proof (induction bs)
  case Nil
  then show ?case by simp
next
  case (Cons b bs)
  then obtain prefixes where l: "length prefixes = length bs"
    and p: "\<forall>i<length bs. length (prefixes ! i) = 4 \<and>
                          big_endian (prefixes ! i) = length (encode (bs ! i))"
    and j: "join_datagrams encode bs = Inr (concat (map2 (\<lambda>p b. p @ encode b) prefixes bs))"
    by auto
  from Cons.prems struct_pack_i_prefix [of "length (encode b)"]
  obtain q where q: "struct_pack_i (length (encode b)) = Inr q" "length q = 4"
    "big_endian q = length (encode b)"
    by auto
  have "\<forall>i<length (b # bs). length ((q # prefixes) ! i) = 4 \<and>
          big_endian ((q # prefixes) ! i) = length (encode ((b # bs) ! i))"
    using p q by (auto simp: nth_Cons')
  moreover have "join_datagrams encode (b # bs) =
       Inr (concat (map2 (\<lambda>p b. p @ encode b) (q # prefixes) (b # bs)))"
    by (simp add: q j Let_def)
  ultimately show ?case using l by (intro exI [of _ "q # prefixes"]) simp
qed

lemma rounding_session_bundles:
  "to_osc_bundles insertion_order no_mask rounding_session None = Inr rounding_bundles"
  by code_simp

text \<open>
  C8. Whenever the bundles of a session are produced and the encoding of each is shorter than
  \<open>2^31\<close> bytes (longer ones make \<^verbatim>\<open>struct.pack\<close> raise), the datagram is returned
  and is the concatenation, over the bundles in their order, which is ascending in the
  timestamps (not always strictly: two offsets may have the same float), of one record per
  bundle: a prefix of four bytes that denotes, most significant byte first, the length of the
  bundle's encoding, followed by that encoding.
\<close>

theorem C8_datagram:
  assumes "to_osc_bundles h ops s timespan = Inr bs"
    and "\<forall>b\<in>set bs. length (encode b) < 2 ^ 31"
  shows "sorted (map timestamp bs) \<and>
         (\<exists>prefixes. length prefixes = length bs \<and>
            (\<forall>i<length bs. length (prefixes ! i) = 4 \<and>
                           big_endian (prefixes ! i) = length (encode (bs ! i))) \<and>
            to_datagram encode h ops s timespan =
              Inr (concat (map2 (\<lambda>p b. p @ encode b) prefixes bs)))"
  using to_osc_bundles_ascending [OF assms(1)] join_datagrams_records [OF assms(2)] assms(1)
  by (simp add: to_datagram_def)


theorem C8_datagram_witness:
  "to_osc_bundles insertion_order no_mask rounding_session None = Inr rounding_bundles \<and>
   list_all (\<lambda>b. length (example_encode b) < 2 ^ 31) rounding_bundles \<and>
   sorted (map timestamp rounding_bundles) \<and>
   \<not> sorted_wrt (<) (map timestamp rounding_bundles) \<and>
   (\<exists>prefixes. length prefixes = length rounding_bundles \<and>
      (\<forall>i<length rounding_bundles. length (prefixes ! i) = 4 \<and>
         big_endian (prefixes ! i) = length (example_encode (rounding_bundles ! i))) \<and>
      to_datagram example_encode insertion_order no_mask rounding_session None =
        Inr (concat (map2 (\<lambda>p b. p @ example_encode b) prefixes rounding_bundles)))"
proof -
  have small: "\<forall>b\<in>set rounding_bundles. length (example_encode b) < 2 ^ 31"
    by (simp add: rounding_bundles_def example_encode_def)
  then have l: "list_all (\<lambda>b. length (example_encode b) < 2 ^ 31) rounding_bundles"
    by (simp add: list_all_iff)
  have "\<And>x y :: real. x = y \<Longrightarrow> \<not> sorted_wrt (<) [x, y]" by simp
  then have n: "\<not> sorted_wrt (<) (map timestamp rounding_bundles)"
    unfolding rounding_bundles_def by (simp only: list.map osc_bundle.simps not_False_eq_True)
  from C8_datagram [OF rounding_session_bundles small] rounding_session_bundles l n
  show ?thesis by blast
qed

section \<open>The bus id mapping\<close>

lemma allocate_unbounded [simp]: "allocate n [(a, None)] = Some (a, [(a + n, None)])"
  by simp

lemma assign_block_eq:
  "assign_block b ids m = (if ids = [] then m else m(BusKey b \<mapsto> last ids))"
  by (induction ids arbitrary: m) auto

lemma allocate_buses_step:
  "allocate_buses (b # bs) [(a, None)] [(c, None)] m =
     (if m (BusKey b) \<noteq> None then allocate_buses bs [(a, None)] [(c, None)] m
      else if calculation_rate b = AUDIO
      then allocate_buses bs [(a + block_size b, None)] [(c, None)] (allocated b a m)
      else allocate_buses bs [(a, None)] [(c + block_size b, None)] (allocated b c m))"
  by (auto simp: Let_def block_size_def allocated_def assign_block_eq split: option.splits)

lemma allocate_buses_mapped:
  "m (BusKey b) \<noteq> None \<Longrightarrow>
   allocate_buses (b # bs) [(a, None)] [(c, None)] m = allocate_buses bs [(a, None)] [(c, None)] m"
  by (subst allocate_buses_step) simp

lemma allocate_buses_audio:
  "m (BusKey b) = None \<Longrightarrow> calculation_rate b = AUDIO \<Longrightarrow>
   allocate_buses (b # bs) [(a, None)] [(c, None)] m =
   allocate_buses bs [(a + block_size b, None)] [(c, None)] (allocated b a m)"
  by (subst allocate_buses_step) simp

lemma allocate_buses_control:
  "m (BusKey b) = None \<Longrightarrow> calculation_rate b \<noteq> AUDIO \<Longrightarrow>
   allocate_buses (b # bs) [(a, None)] [(c, None)] m =
   allocate_buses bs [(a, None)] [(c + block_size b, None)] (allocated b c m)"
  by (subst allocate_buses_step) simp

lemma allocated_BusKey:
  "allocated b base m (BusKey b') =
     (if b' = b \<and> 0 < block_size b then Some (base + block_size b - 1) else m (BusKey b'))"
  by (auto simp: allocated_def block_size_def split: option.splits)

lemma allocated_SynthKey [simp]: "allocated b base m (SynthKey x) = m (SynthKey x)"
  by (auto simp: allocated_def split: option.splits)

lemma allocate_buses_one:
  assumes "control_ids_below c m" "control_ids_distinct m"
  obtains a' c' m1 where
    "allocate_buses (b # bs) [(a, None)] [(c, None)] m =
       allocate_buses bs [(a', None)] [(c', None)] m1"
    "control_ids_below c' m1" "control_ids_distinct m1"
    "\<forall>b'. m (BusKey b') \<noteq> None \<longrightarrow> m1 (BusKey b') = m (BusKey b')"
    "0 < block_size b \<longrightarrow> m1 (BusKey b) \<noteq> None"
proof (cases "m (BusKey b) \<noteq> None")
  case True
  then have e: "allocate_buses (b # bs) [(a, None)] [(c, None)] m =
             allocate_buses bs [(a, None)] [(c, None)] m"
    by (rule allocate_buses_mapped)
  have k: "\<forall>b'. m (BusKey b') \<noteq> None \<longrightarrow> m (BusKey b') = m (BusKey b')" by simp
  have n: "0 < block_size b \<longrightarrow> m (BusKey b) \<noteq> None" using True by simp
  show ?thesis by (rule that [OF e assms k n])
next
  case False
  show ?thesis
  proof (cases "calculation_rate b = AUDIO")
    case True
    let ?m = "allocated b a m"
    have e: "allocate_buses (b # bs) [(a, None)] [(c, None)] m =
             allocate_buses bs [(a + block_size b, None)] [(c, None)] ?m"
      using False True by (intro allocate_buses_audio) simp_all
    have same: "\<And>b'. calculation_rate b' \<noteq> AUDIO \<Longrightarrow> ?m (BusKey b') = m (BusKey b')"
      using True by (auto simp: allocated_BusKey)
    have 1: "control_ids_below c ?m"
      unfolding control_ids_below_def
    proof (intro allI impI)
      fix b' i
      assume "calculation_rate b' \<noteq> AUDIO" "?m (BusKey b') = Some i"
      then have "m (BusKey b') = Some i" using same by simp
      with \<open>calculation_rate b' \<noteq> AUDIO\<close> assms(1) show "i < c"
        unfolding control_ids_below_def by blast
    qed
    have 2: "control_ids_distinct ?m"
      unfolding control_ids_distinct_def
    proof (intro allI impI)
      fix b1 b2 i
      assume r: "calculation_rate b1 \<noteq> AUDIO" "calculation_rate b2 \<noteq> AUDIO"
        and "?m (BusKey b1) = Some i" "?m (BusKey b2) = Some i"
      then have "m (BusKey b1) = Some i" "m (BusKey b2) = Some i" using same by simp_all
      with r assms(2) show "b1 = b2"
        unfolding control_ids_distinct_def by blast
    qed
    have 3: "\<forall>b'. m (BusKey b') \<noteq> None \<longrightarrow> ?m (BusKey b') = m (BusKey b')"
      using False by (simp add: allocated_BusKey)
    have 4: "0 < block_size b \<longrightarrow> ?m (BusKey b) \<noteq> None"
      by (simp add: allocated_BusKey)
    show ?thesis by (rule that [OF e 1 2 3 4])
  next
    case nonaudio: False
    let ?m = "allocated b c m"
    have e: "allocate_buses (b # bs) [(a, None)] [(c, None)] m =
             allocate_buses bs [(a, None)] [(c + block_size b, None)] ?m"
      using False nonaudio by (intro allocate_buses_control) simp_all
    have old: "\<And>b' i. calculation_rate b' \<noteq> AUDIO \<Longrightarrow> m (BusKey b') = Some i \<Longrightarrow> i < c"
      using assms(1) unfolding control_ids_below_def by blast
    have 1: "control_ids_below (c + block_size b) ?m"
      unfolding control_ids_below_def
    proof (intro allI impI)
      fix b' i
      assume "calculation_rate b' \<noteq> AUDIO" "?m (BusKey b') = Some i"
      then show "i < c + block_size b"
        using old [of b' i] by (auto simp: allocated_BusKey split: if_splits)
    qed
    have 2: "control_ids_distinct ?m"
      unfolding control_ids_distinct_def
    proof (intro allI impI)
      fix b1 b2 i
      assume r: "calculation_rate b1 \<noteq> AUDIO" "calculation_rate b2 \<noteq> AUDIO"
        and i1: "?m (BusKey b1) = Some i" and i2: "?m (BusKey b2) = Some i"
      show "b1 = b2"
      proof (cases "b1 = b \<and> 0 < block_size b")
        case True
        then have i: "i = c + block_size b - 1" using i1 by (simp add: allocated_BusKey)
        show ?thesis
        proof (cases "b2 = b \<and> 0 < block_size b")
          case True
          with \<open>b1 = b \<and> 0 < block_size b\<close> show ?thesis by simp
        next
          case False
          then have "m (BusKey b2) = Some i" using i2 by (auto simp: allocated_BusKey)
          from old [OF r(2) this] i True show ?thesis by auto
        qed
      next
        case False
        then have m1: "m (BusKey b1) = Some i" using i1 by (auto simp: allocated_BusKey)
        show ?thesis
        proof (cases "b2 = b \<and> 0 < block_size b")
          case True
          then have "i = c + block_size b - 1" using i2 by (simp add: allocated_BusKey)
          with old [OF r(1) m1] True show ?thesis by auto
        next
          case False
          then have "m (BusKey b2) = Some i" using i2 by (auto simp: allocated_BusKey)
          with m1 r assms(2) show ?thesis
            unfolding control_ids_distinct_def by blast
        qed
      qed
    qed
    have 3: "\<forall>b'. m (BusKey b') \<noteq> None \<longrightarrow> ?m (BusKey b') = m (BusKey b')"
      using False by (simp add: allocated_BusKey)
    have 4: "0 < block_size b \<longrightarrow> ?m (BusKey b) \<noteq> None"
      by (simp add: allocated_BusKey)
    show ?thesis by (rule that [OF e 1 2 3 4])
  qed
qed

lemma allocate_buses_spec:
  assumes "control_ids_below c m" "control_ids_distinct m"
  shows "\<exists>m'. allocate_buses bs [(a, None)] [(c, None)] m = Inr m' \<and>
           control_ids_distinct m' \<and>
           (\<forall>b. m (BusKey b) \<noteq> None \<longrightarrow> m' (BusKey b) = m (BusKey b)) \<and>
           (\<forall>b\<in>set bs. 0 < block_size b \<longrightarrow> m' (BusKey b) \<noteq> None)"
  using assms
proof (induction bs arbitrary: a c m)
  case Nil
  then show ?case by simp
next
  case (Cons b bs)
  from Cons.prems obtain a' c' m1 where
    e: "allocate_buses (b # bs) [(a, None)] [(c, None)] m =
        allocate_buses bs [(a', None)] [(c', None)] m1"
    and inv: "control_ids_below c' m1" "control_ids_distinct m1"
    and keep: "\<forall>b'. m (BusKey b') \<noteq> None \<longrightarrow> m1 (BusKey b') = m (BusKey b')"
    and new: "0 < block_size b \<longrightarrow> m1 (BusKey b) \<noteq> None"
    by (rule allocate_buses_one)
  from Cons.IH [OF inv, of a'] obtain m' where
    m': "allocate_buses bs [(a', None)] [(c', None)] m1 = Inr m'"
    and d': "control_ids_distinct m'"
    and keep': "\<forall>b'. m1 (BusKey b') \<noteq> None \<longrightarrow> m' (BusKey b') = m1 (BusKey b')"
    and new': "\<forall>b\<in>set bs. 0 < block_size b \<longrightarrow> m' (BusKey b) \<noteq> None"
    by blast
  have 1: "allocate_buses (b # bs) [(a, None)] [(c, None)] m = Inr m'"
    using e m' by (simp only:)
  have 2: "\<forall>b'. m (BusKey b') \<noteq> None \<longrightarrow> m' (BusKey b') = m (BusKey b')"
    using keep keep' by metis
  have 3: "\<forall>b'\<in>set (b # bs). 0 < block_size b' \<longrightarrow> m' (BusKey b') \<noteq> None"
    using new new' keep' by (metis set_ConsD)
  from 1 d' 2 3 show ?case by blast
qed


lemma enumerate_buses_BusKey:
  "enumerate_buses n bs m (BusKey b) = None \<longleftrightarrow> b \<notin> set bs \<and> m (BusKey b) = None"
  by (induction bs arbitrary: n m) auto

lemma audio_groups_rate:
  "audio_output_bus_group s = Some members \<Longrightarrow> b \<in> set members \<Longrightarrow> calculation_rate b = AUDIO"
  "audio_input_bus_group s = Some members \<Longrightarrow> b \<in> set members \<Longrightarrow> calculation_rate b = AUDIO"
  by (auto simp: audio_output_bus_group_def audio_input_bus_group_def split: if_splits)

lemma buses_ok_block_size: "buses_ok s \<longleftrightarrow> (\<forall>b\<in>set (buses s). 0 < block_size b)"
  by (auto simp: buses_ok_def block_size_def split: option.splits)

lemma build_bus_id_mapping_spec:
  "\<exists>bus_ids. build_bus_id_mapping s = Inr bus_ids \<and> control_ids_distinct bus_ids \<and>
      (\<forall>b\<in>set (buses s). 0 < block_size b \<longrightarrow> bus_ids (BusKey b) \<noteq> None)"
proof -
  define m1 where "m1 = (case audio_output_bus_group s of
                       None \<Rightarrow> Map.empty
                     | Some members \<Rightarrow> enumerate_buses 0 members Map.empty)"
  define m2 where "m2 = (case audio_input_bus_group s of
                       None \<Rightarrow> m1
                     | Some members \<Rightarrow> enumerate_buses (output_count s) members m1)"
  have b: "build_bus_id_mapping s =
           allocate_buses (buses s) [(input_count s + output_count s, None)] [(0, None)] m2"
    unfolding m2_def m1_def
    by (simp add: build_bus_id_mapping_def Let_def BlockAllocator_init_def)
  have 1: "\<And>b. calculation_rate b \<noteq> AUDIO \<Longrightarrow> m1 (BusKey b) = None"
    using audio_groups_rate(1) [of s]
    by (auto simp: m1_def enumerate_buses_BusKey split: option.splits)
  have 2: "\<And>b. calculation_rate b \<noteq> AUDIO \<Longrightarrow> m2 (BusKey b) = None"
    using audio_groups_rate(2) [of s] 1
    by (auto simp: m2_def enumerate_buses_BusKey split: option.splits)
  have "control_ids_below 0 m2" "control_ids_distinct m2"
    using 2 by (auto simp: control_ids_below_def control_ids_distinct_def)
  from allocate_buses_spec [OF this, of "buses s" "input_count s + output_count s"]
  show ?thesis unfolding b by blast
qed

lemma build_synth_id_mapping_BusKey [simp]: "build_synth_id_mapping s (BusKey b) = None"
  by (auto simp: build_synth_id_mapping_def assign_node_ids_dom)

lemma build_id_mapping_spec:
  "\<exists>id_mapping. build_id_mapping s = Inr id_mapping \<and> control_ids_distinct id_mapping \<and>
      (\<forall>b\<in>set (buses s). 0 < block_size b \<longrightarrow> id_mapping (BusKey b) \<noteq> None)"
proof -
  from build_bus_id_mapping_spec [of s] obtain bus_ids where
    b: "build_bus_id_mapping s = Inr bus_ids" and d: "control_ids_distinct bus_ids"
    and t: "\<forall>b\<in>set (buses s). 0 < block_size b \<longrightarrow> bus_ids (BusKey b) \<noteq> None"
    by blast
  let ?m = "build_synth_id_mapping s ++ bus_ids"
  have e: "\<And>b. ?m (BusKey b) = bus_ids (BusKey b)"
    by (simp add: map_add_def split: option.splits)
  have "build_id_mapping s = Inr ?m" by (simp add: build_id_mapping_def b)
  moreover have "control_ids_distinct ?m"
    using d unfolding control_ids_distinct_def e .
  moreover have "\<forall>b\<in>set (buses s). 0 < block_size b \<longrightarrow> ?m (BusKey b) \<noteq> None"
    using t unfolding e .
  ultimately show ?thesis by blast
qed

subsection \<open>The events of the control buses\<close>

lemma keys_record_bus_events: "keys (record_bus_events i es d) = keys d \<union> fst ` set es"
  by (induction i es d rule: record_bus_events.induct) (auto simp: keys_update)

lemma collect_bus_events_keys:
  "collect_bus_events id_mapping bs d = Inr d' \<Longrightarrow>
   keys d' = keys d \<union> (\<Union>b\<in>{b \<in> set bs. calculation_rate b = CONTROL}. fst ` set (events b))"
proof (induction bs arbitrary: d)
  case Nil
  then show ?case by simp
next
  case (Cons b bs)
  show ?case
  proof (cases "calculation_rate b = CONTROL")
    case False
    with Cons show ?thesis by auto
  next
    case True
    with Cons.prems obtain i where i: "id_mapping (BusKey b) = Some i"
      and r: "collect_bus_events id_mapping bs (record_bus_events i (events b) d) = Inr d'"
      by (auto split: option.splits)
    from Cons.IH [OF r] True show ?thesis
      by (auto simp: keys_record_bus_events)
  qed
qed

lemma collect_bus_events_total:
  "\<forall>b\<in>set bs. calculation_rate b = CONTROL \<longrightarrow> id_mapping (BusKey b) \<noteq> None \<Longrightarrow>
   \<exists>d'. collect_bus_events id_mapping bs d = Inr d'"
  by (induction bs arbitrary: d) auto

lemma collect_bus_events_error: "collect_bus_events id_mapping bs d = Inl e \<Longrightarrow> e = KeyError"
  by (induction bs arbitrary: d) (auto split: if_splits option.splits)

lemma collect_each_synth_error:
  "collect_each_synth h id_mapping xs rm = Inl e \<Longrightarrow> e = KeyError"
  by (induction xs arbitrary: rm)
     (auto simp: synth_collect_requests_def split: sum.splits option.splits)

lemma collect_requests_error: "collect_requests h s = Inl e \<Longrightarrow> e = KeyError"
proof -
  assume a: "collect_requests h s = Inl e"
  from build_id_mapping_spec [of s] obtain id_mapping where
    i: "build_id_mapping s = Inr id_mapping" by blast
  show ?thesis
  proof (cases "collect_bus_requests h s [] id_mapping")
    case (Inl e')
    then have "e' = KeyError"
      by (auto simp: collect_bus_requests_def dest: collect_bus_events_error split: sum.splits)
    with a i Inl show ?thesis by (simp add: collect_requests_def)
  next
    case (Inr rm1)
    with a i have "collect_synth_requests h s (collect_synthdef_requests h s rm1) id_mapping = Inl e"
      by (simp add: collect_requests_def)
    then show ?thesis
      by (auto simp: collect_synth_requests_def dest: collect_each_synth_error split: if_splits)
  qed
qed

text \<open>
  C9. The session that is rendered (the given one, or the masked one when a render range is
  given) yields no commands at all when it has no synths and none of its control buses has an
  event: then \<open>to_osc_bundles\<close> fails with the exception that stands for the
  spec's EmptySessionError (the source raises \<^verbatim>\<open>ValueError\<close> at this point), and
  \<open>to_datagram\<close>, which calls it first, fails with it before any byte is produced. A session
  with a synth or with an event on a control bus never fails with this exception.
\<close>

theorem C9_empty_session:
  "(buses_ok (process_timespan_mask ops s timespan) \<and>
    synths (process_timespan_mask ops s timespan) = [] \<and>
    (\<forall>b\<in>set (buses (process_timespan_mask ops s timespan)).
        calculation_rate b = CONTROL \<longrightarrow> events b = []) \<longrightarrow>
      to_osc_bundles h ops s timespan = Inl ValueError \<and>
      to_datagram encode h ops s timespan = Inl ValueError) \<and>
   (synths (process_timespan_mask ops s timespan) \<noteq> [] \<or>
    (\<exists>b\<in>set (buses (process_timespan_mask ops s timespan)).
        calculation_rate b = CONTROL \<and> events b \<noteq> []) \<longrightarrow>
      to_osc_bundles h ops s timespan \<noteq> Inl ValueError \<and>
      to_datagram encode h ops s timespan \<noteq> Inl ValueError)"
proof (intro conjI impI)
  let ?s = "process_timespan_mask ops s timespan"
  assume a: "buses_ok ?s \<and> synths ?s = [] \<and>
    (\<forall>b\<in>set (buses ?s). calculation_rate b = CONTROL \<longrightarrow> events b = [])"
  from build_id_mapping_spec [of ?s] a obtain id_mapping where
    i: "build_id_mapping ?s = Inr id_mapping"
    and t: "\<forall>b\<in>set (buses ?s). id_mapping (BusKey b) \<noteq> None"
    by (auto simp: buses_ok_block_size)
  from collect_bus_events_total [of "buses ?s" id_mapping "[]"] t obtain ebo where
    e: "collect_bus_events id_mapping (buses ?s) [] = Inr ebo" by blast
  from collect_bus_events_keys [OF e] a have "keys ebo = {}" by auto
  then have ebo: "ebo = []" by (simp add: keys_empty_iff)
  have "collect_requests h ?s = Inr []"
    using a by (simp add: collect_requests_def i collect_bus_requests_def e ebo items_def
        collect_synthdef_requests_def offsets_to_synthdefs_def synthdefs_to_offsets_def
        iterate_simultaneities_def collect_synth_requests_def map_filter_simps)
  then show v: "to_osc_bundles h ops s timespan = Inl ValueError"
    by (simp add: to_osc_bundles_def)
  show "to_datagram encode h ops s timespan = Inl ValueError"
    by (simp add: to_datagram_def v)
next
  let ?s = "process_timespan_mask ops s timespan"
  assume a: "synths ?s \<noteq> [] \<or>
    (\<exists>b\<in>set (buses ?s). calculation_rate b = CONTROL \<and> events b \<noteq> [])"
  show v: "to_osc_bundles h ops s timespan \<noteq> Inl ValueError"
  proof (cases "collect_requests h ?s")
    case (Inl e)
    then have "e = KeyError" by (rule collect_requests_error)
    with Inl show ?thesis by (simp add: to_osc_bundles_def)
  next
    case (Inr rm)
    then obtain id_mapping ebo where
      e: "collect_bus_events id_mapping (buses ?s) [] = Inr ebo"
      and k: "keys rm = keys ebo \<union> keys (offsets_to_synthdefs h ?s) \<union>
         (\<Union>x\<in>set (synths ?s). keys (requests_of_synth (node_id_of id_mapping x) x))"
      by (rule collect_requests_Inr)
    from a have "keys rm \<noteq> {}"
    proof
      assume "synths ?s \<noteq> []"
      then obtain x where "x \<in> set (synths ?s)" by (cases "synths ?s") auto
      then have "start_offset x \<in> keys rm"
        unfolding k by (auto simp: keys_requests_of_synth)
      then show ?thesis by blast
    next
      assume "\<exists>b\<in>set (buses ?s). calculation_rate b = CONTROL \<and> events b \<noteq> []"
      then obtain b where b: "b \<in> set (buses ?s)" "calculation_rate b = CONTROL" "events b \<noteq> []"
        by blast
      then obtain ev where "ev \<in> set (events b)" by (cases "events b") auto
      with b have "fst ev \<in> keys ebo"
        unfolding collect_bus_events_keys [OF e] by auto
      then show ?thesis unfolding k by blast
    qed
    then have ne: "rm \<noteq> []" by auto
    show ?thesis
    proof
      assume "to_osc_bundles h ops s timespan = Inl ValueError"
      from to_osc_bundles_error [OF this] Inr ne show False by simp
    qed
  qed
  then show "to_datagram encode h ops s timespan \<noteq> Inl ValueError"
  proof (cases "to_osc_bundles h ops s timespan")
    case (Inl e)
    with v show ?thesis by (simp add: to_datagram_def)
  next
    case (Inr bs)
    have "\<And>r. join_datagrams encode bs \<noteq> Inl ValueError"
      by (induction bs) (auto simp: Let_def struct_pack_i_def split: sum.splits if_splits)
    with Inr show ?thesis by (simp add: to_datagram_def)
  qed
qed


theorem C9_empty_session_witness:
  "buses_ok (process_timespan_mask no_mask (Session_init 0 2) None) \<and>
   synths (process_timespan_mask no_mask (Session_init 0 2) None) = [] \<and>
   buses (process_timespan_mask no_mask (Session_init 0 2) None) = [] \<and>
   to_osc_bundles insertion_order no_mask (Session_init 0 2) None = Inl ValueError \<and>
   to_datagram example_encode insertion_order no_mask (Session_init 0 2) None = Inl ValueError \<and>
   synths (process_timespan_mask no_mask relay_session None) \<noteq> [] \<and>
   to_osc_bundles insertion_order no_mask relay_session None \<noteq> Inl ValueError"
proof -
  have b: "buses (process_timespan_mask no_mask (Session_init 0 2) None) = []"
    by (simp add: process_timespan_mask_def Session_init_def)
  have e: "buses_ok (process_timespan_mask no_mask (Session_init 0 2) None) \<and>
    synths (process_timespan_mask no_mask (Session_init 0 2) None) = [] \<and>
    (\<forall>b\<in>set (buses (process_timespan_mask no_mask (Session_init 0 2) None)).
       calculation_rate b = CONTROL \<longrightarrow> events b = [])"
    by (simp add: process_timespan_mask_def Session_init_def buses_ok_def)
  have r: "synths (process_timespan_mask no_mask relay_session None) \<noteq> []"
    by (simp add: process_timespan_mask_def relay_session_def add_synth_def)
  from C9_empty_session
         [of no_mask "Session_init 0 2" None insertion_order example_encode, THEN conjunct1]
       C9_empty_session
         [of no_mask relay_session None insertion_order example_encode, THEN conjunct2]
       e r b
  show ?thesis by blast
qed

section \<open>The commands of a bundle, kind by kind\<close>

subsection \<open>The commands of one kind in a bundle\<close>

lemma filter_block:
  assumes "command_of_type t = Some c'"
  shows "filter (\<lambda>m. command_of m = Some c) (map to_osc_message (requests_by_type rs t)) =
         (if c' = c then map to_osc_message (requests_by_type rs t) else [])"
proof -
  have "\<forall>m\<in>set (map to_osc_message (requests_by_type rs t)). command_of m = Some c'"
    using assms by (auto simp: requests_by_type_def command_of_to_osc_message)
  then show ?thesis
    by (cases "c' = c") (auto simp: filter_empty_conv intro!: filter_True)
qed

lemma commands_of_bundle_of:
  "commands_of c (bundle_of k rs) =
     concat (map (\<lambda>t. if command_of_type t = Some c
                       then map to_osc_message (requests_by_type rs t) else [])
                 prioritized_request_types) @
     (if c = NodeFree \<and> requests_by_type rs NodeFreeRequestType \<noteq> []
      then [to_osc_message (NodeFreeRequest
              (concat (map node_ids (requests_by_type rs NodeFreeRequestType))))]
      else [])"
  unfolding commands_of_def bundle_of_def Let_def prioritized_request_types_def
  by (simp add: filter_block filter_concat)


lemma definition_receive_commands:
  "commands_of DefinitionReceive (bundle_of k rs) =
     map to_osc_message (requests_by_type rs SynthDefReceiveRequestType)"
  by (simp add: commands_of_bundle_of prioritized_request_types_def)

lemma node_free_commands:
  "commands_of NodeFree (bundle_of k rs) =
     (if requests_by_type rs NodeFreeRequestType \<noteq> []
      then [to_osc_message (NodeFreeRequest
              (concat (map node_ids (requests_by_type rs NodeFreeRequestType))))]
      else [])"
  by (simp add: commands_of_bundle_of prioritized_request_types_def)

lemma requests_by_type_append [simp]:
  "requests_by_type (xs @ ys) t = requests_by_type xs t @ requests_by_type ys t"
  by (simp add: requests_by_type_def)

subsection \<open>The requests of one synth, offset by offset\<close>

lemma dict_get_record_settings:
  "dict_get (record_settings n es rm) k [] =
   dict_get rm k [] @
   map (\<lambda>e. NodeSetRequest n [snd e]) (filter (\<lambda>e. fst e = k) es)"
  by (induction n es rm rule: record_settings.induct)
     (auto simp: dict_get_setdefault_extend)

lemma dict_get_requests_of_synth:
  "dict_get (requests_of_synth n x) k [] =
   (if k = start_offset x then [SynthNewRequest n (synthdef x) (synth_kwargs x)] else []) @
   map (\<lambda>e. NodeSetRequest n [snd e]) (filter (\<lambda>e. fst e = k) (synth_events x)) @
   (if stop_offset x = Some k then [NodeFreeRequest [n]] else [])"
  by (auto simp: requests_of_synth_def Let_def dict_get_record_settings
        dict_get_setdefault_extend split: option.splits)

lemma requests_by_type_NodeSet [simp]:
  "requests_by_type (map (\<lambda>e. NodeSetRequest n (f e)) es) t =
   (if t = NodeSetRequestType then map (\<lambda>e. NodeSetRequest n (f e)) es else [])"
  by (induction es) (auto simp: requests_by_type_def)

lemma requests_by_type_Nil [simp]: "requests_by_type [] t = []"
  by (simp add: requests_by_type_def)

lemma requests_by_type_Cons:
  "requests_by_type (r # rs) t =
   (if type_of r = t then r # requests_by_type rs t else requests_by_type rs t)"
  by (simp add: requests_by_type_def)

lemma requests_by_type_concat:
  "requests_by_type (concat xss) t = concat (map (\<lambda>xs. requests_by_type xs t) xss)"
  by (induction xss) simp_all

lemma synth_requests_at_bus_set [simp]:
  "requests_by_type (synth_requests_at id_mapping xs k) ControlBusSetRequestType = []"
  by (induction xs)
     (simp_all add: synth_requests_at_def dict_get_requests_of_synth requests_by_type_Cons)

lemma synth_requests_at_definition_receive [simp]:
  "requests_by_type (synth_requests_at id_mapping xs k) SynthDefReceiveRequestType = []"
  by (induction xs)
     (simp_all add: synth_requests_at_def dict_get_requests_of_synth requests_by_type_Cons)

lemma synth_requests_at_node_free:
  "requests_by_type (synth_requests_at id_mapping xs k) NodeFreeRequestType =
   map (\<lambda>x. NodeFreeRequest [node_id_of id_mapping x])
       (filter (\<lambda>x. stop_offset x = Some k) xs)"
  by (induction xs)
     (simp_all add: synth_requests_at_def dict_get_requests_of_synth requests_by_type_Cons)

lemma bus_requests_by_type:
  "requests_by_type (dict_get (bus_requests d) k []) t =
   (if t = ControlBusSetRequestType then dict_get (bus_requests d) k [] else [])"
  by (auto simp: dict_get_bus_requests requests_by_type_Cons split: option.splits)

lemma synthdef_requests_by_type:
  "requests_by_type (dict_get (synthdef_requests d) k []) t =
   (if t = SynthDefReceiveRequestType then dict_get (synthdef_requests d) k [] else [])"
  by (auto simp: dict_get_synthdef_requests requests_by_type_Cons split: option.splits)


subsection \<open>The bundle at an offset\<close>

lemma filter_eq_singleton:
  "distinct xs \<Longrightarrow> x \<in> set xs \<Longrightarrow> filter (\<lambda>k. k = x) xs = [x]"
  by (induction xs) (auto simp: filter_empty_conv)

lemma zip_map_append: "zip xs (map f xs @ ys) = map (\<lambda>x. (x, f x)) xs"
  by (induction xs) simp_all

lemma bundles_for_map:
  "bundles_for offset ks (map f ks @ ys) = map f (filter (\<lambda>k. k = offset) ks)"
  by (simp add: bundles_for_def zip_map_append filter_map comp_def)

lemma bundles_for_key:
  assumes "bs = map (\<lambda>k. bundle_of k (dict_get rm k [])) (sorted_list_of_set (keys rm)) @
                terminal_bundles (Max (keys rm)) timespan"
    and "offset \<in> keys rm"
  shows "bundles_for offset (sorted_list_of_set (keys rm)) bs =
         [bundle_of offset (dict_get rm offset [])]"
proof -
  have fin: "finite (keys rm)" by (simp add: keys_def)
  show ?thesis
    unfolding assms(1) bundles_for_map using assms(2) fin
    by (simp add: filter_eq_singleton)
qed


lemma float_timestamp_bundle_of:
  assumes "\<forall>k\<in>keys rm. float k = Inr (of_rat (nearest_double k))" and "offset \<in> keys rm"
  shows "float offset = Inr (timestamp (bundle_of offset rs))"
  using assms by simp

subsection \<open>The events of the control buses, offset by offset\<close>



lemma last_value_None: "last_value es offset = None \<longleftrightarrow> offset \<notin> fst ` set es"
  by (simp add: last_value_def map_of_eq_None_iff)




lemma to_osc_bundles_parts:
  assumes "to_osc_bundles h ops s timespan = Inr bs"
  obtains rm id_mapping events_by_offset where
    "bs = map (\<lambda>k. bundle_of k (dict_get rm k [])) (sorted_list_of_set (keys rm)) @
          terminal_bundles (Max (keys rm)) timespan"
    "build_id_mapping (process_timespan_mask ops s timespan) = Inr id_mapping"
    "collect_bus_events id_mapping (buses (process_timespan_mask ops s timespan)) [] =
       Inr events_by_offset"
    "keys rm = keys events_by_offset \<union>
       keys (offsets_to_synthdefs h (process_timespan_mask ops s timespan)) \<union>
       (\<Union>x\<in>set (synths (process_timespan_mask ops s timespan)).
          keys (requests_of_synth (node_id_of id_mapping x) x))"
    "\<forall>k. dict_get rm k [] =
       dict_get (bus_requests events_by_offset) k [] @
       dict_get (synthdef_requests
                  (offsets_to_synthdefs h (process_timespan_mask ops s timespan))) k [] @
       synth_requests_at id_mapping
         (sorted_synths id_mapping (process_timespan_mask ops s timespan)) k"
    "bundle_offsets h ops s timespan = sorted_list_of_set (keys rm)"
    "\<forall>k\<in>keys rm. float k = Inr (of_rat (nearest_double k))"
proof -
  let ?s = "process_timespan_mask ops s timespan"
  from assms obtain rm where
    c: "collect_requests h ?s = Inr rm"
    and bs: "bs = map (\<lambda>k. bundle_of k (dict_get rm k []))
                    (sorted_list_of_set (keys rm)) @
                  terminal_bundles (Max (keys rm)) timespan"
    and o: "bundle_offsets h ops s timespan = sorted_list_of_set (keys rm)"
    and f: "\<forall>k\<in>keys rm. float k = Inr (of_rat (nearest_double k))"
    by (rule to_osc_bundles_canonical)
  from c show ?thesis
  proof (rule collect_requests_Inr)
    fix id_mapping events_by_offset
    assume i: "build_id_mapping ?s = Inr id_mapping"
      and e: "collect_bus_events id_mapping (buses ?s) [] = Inr events_by_offset"
      and k: "keys rm = keys events_by_offset \<union> keys (offsets_to_synthdefs h ?s) \<union>
         (\<Union>x\<in>set (synths ?s). keys (requests_of_synth (node_id_of id_mapping x) x))"
      and g: "\<And>k. dict_get rm k [] =
         dict_get (bus_requests events_by_offset) k [] @
         dict_get (synthdef_requests (offsets_to_synthdefs h ?s)) k [] @
         synth_requests_at id_mapping (sorted_synths id_mapping ?s) k"
    from g have g': "\<forall>k. dict_get rm k [] =
         dict_get (bus_requests events_by_offset) k [] @
         dict_get (synthdef_requests (offsets_to_synthdefs h ?s)) k [] @
         synth_requests_at id_mapping (sorted_synths id_mapping ?s) k"
      by blast
    show ?thesis by (rule that [OF bs i e k g' o f])
  qed
qed

lemma bundle_in_bundles:
  assumes "bs = map (\<lambda>k. bundle_of k (dict_get rm k [])) (sorted_list_of_set (keys rm)) @
                terminal_bundles (Max (keys rm)) timespan"
    and "b \<in> set bs"
  shows "(\<exists>k\<in>keys rm. b = bundle_of k (dict_get rm k [])) \<or>
         contents b = [OscMessage (Numeric 0) []]"
proof -
  have fin: "finite (keys rm)" by (simp add: keys_def)
  from assms(2) [unfolded assms(1)] fin show ?thesis
    by (auto dest: terminal_bundles_contents)
qed





lemma concat_node_ids:
  "concat (map (node_ids \<circ> (\<lambda>x. NodeFreeRequest [f x])) xs) = map f xs"
  by (induction xs) simp_all

text \<open>
  C6. In the bundles returned for a session, for every offset at which a synth of the rendered
  session stops, exactly one bundle is made for that offset; its timestamp is the float of the
  offset, and it holds exactly one node-free command, which lists the node ids of all synths
  stopping at that offset, each as often as the synth occurs in the session.
\<close>

theorem C6_node_free:
  assumes "to_osc_bundles h ops s timespan = Inr bs"
  shows "\<exists>id_mapping.
           build_id_mapping (process_timespan_mask ops s timespan) = Inr id_mapping \<and>
           (\<forall>x\<in>set (synths (process_timespan_mask ops s timespan)).
               id_mapping (SynthKey x) \<noteq> None) \<and>
           (\<forall>offset.
              (\<exists>x\<in>set (synths (process_timespan_mask ops s timespan)).
                  stop_offset x = Some offset) \<longrightarrow>
              (\<exists>bundle ids.
                  bundles_for offset (bundle_offsets h ops s timespan) bs = [bundle] \<and>
                  float offset = Inr (timestamp bundle) \<and>
                  commands_of NodeFree bundle = [to_osc_message (NodeFreeRequest ids)] \<and>
                  mset ids =
                    mset (map (node_id_of id_mapping)
                           (filter (\<lambda>x. stop_offset x = Some offset)
                              (synths (process_timespan_mask ops s timespan))))))"
proof -
  let ?s = "process_timespan_mask ops s timespan"
  from assms obtain rm id_mapping ebo where
    bs: "bs = map (\<lambda>k. bundle_of k (dict_get rm k [])) (sorted_list_of_set (keys rm)) @
          terminal_bundles (Max (keys rm)) timespan"
    and i: "build_id_mapping ?s = Inr id_mapping"
    and k: "keys rm = keys ebo \<union> keys (offsets_to_synthdefs h ?s) \<union>
       (\<Union>x\<in>set (synths ?s). keys (requests_of_synth (node_id_of id_mapping x) x))"
    and g': "\<forall>k. dict_get rm k [] =
       dict_get (bus_requests ebo) k [] @
       dict_get (synthdef_requests (offsets_to_synthdefs h ?s)) k [] @
       synth_requests_at id_mapping (sorted_synths id_mapping ?s) k"
    and o: "bundle_offsets h ops s timespan = sorted_list_of_set (keys rm)"
    and f: "\<forall>k\<in>keys rm. float k = Inr (of_rat (nearest_double k))"
    by (rule to_osc_bundles_parts)
  from g' have g: "\<And>k. dict_get rm k [] =
       dict_get (bus_requests ebo) k [] @
       dict_get (synthdef_requests (offsets_to_synthdefs h ?s)) k [] @
       synth_requests_at id_mapping (sorted_synths id_mapping ?s) k"
    by blast
  have fr: "\<And>k. requests_by_type (dict_get rm k []) NodeFreeRequestType =
              map (\<lambda>x. NodeFreeRequest [node_id_of id_mapping x])
                  (filter (\<lambda>x. stop_offset x = Some k) (sorted_synths id_mapping ?s))"
    by (simp add: g bus_requests_by_type synthdef_requests_by_type synth_requests_at_node_free)
  show ?thesis
  proof (intro exI [of _ id_mapping] conjI allI impI ballI)
    show "build_id_mapping ?s = Inr id_mapping" by (rule i)
  next
    fix x assume "x \<in> set (synths ?s)"
    then show "id_mapping (SynthKey x) \<noteq> None" by (rule build_id_mapping_defined [OF i])
  next
    fix offset
    assume "\<exists>x\<in>set (synths ?s). stop_offset x = Some offset"
    then obtain x where x: "x \<in> set (synths ?s)" "stop_offset x = Some offset" by blast
    then have kr: "offset \<in> keys rm"
      unfolding k by (auto simp: keys_requests_of_synth)
    from bundles_for_key [OF bs kr]
    have 1: "bundles_for offset (bundle_offsets h ops s timespan) bs =
             [bundle_of offset (dict_get rm offset [])]"
      unfolding o .
    from f kr have 0: "float offset = Inr (timestamp (bundle_of offset (dict_get rm offset [])))"
      by simp
    let ?stopping = "filter (\<lambda>x. stop_offset x = Some offset) (sorted_synths id_mapping ?s)"
    from x have "x \<in> set ?stopping" by (simp add: sorted_synths_def)
    then have ne: "?stopping \<noteq> []" by (metis empty_iff empty_set)
    have 2: "commands_of NodeFree (bundle_of offset (dict_get rm offset [])) =
             [to_osc_message (NodeFreeRequest (map (node_id_of id_mapping) ?stopping))]"
      using ne by (simp add: node_free_commands fr concat_node_ids)
    have 3: "mset (map (node_id_of id_mapping) ?stopping) =
                  mset (map (node_id_of id_mapping)
                         (filter (\<lambda>x. stop_offset x = Some offset) (synths ?s)))"
      by (simp add: sorted_synths_def)
    show "\<exists>bundle ids.
            bundles_for offset (bundle_offsets h ops s timespan) bs = [bundle] \<and>
            float offset = Inr (timestamp bundle) \<and>
            commands_of NodeFree bundle = [to_osc_message (NodeFreeRequest ids)] \<and>
            mset ids = mset (map (node_id_of id_mapping)
                              (filter (\<lambda>x. stop_offset x = Some offset) (synths ?s)))"
      by (intro exI conjI) (rule 1 0 2 3)+
  qed
qed

lemma docstring_session_bundles:
  "to_osc_bundles insertion_order no_mask docstring_session None = Inr docstring_bundles"
  by code_simp

lemma docstring_session_offsets:
  "bundle_offsets insertion_order no_mask docstring_session None = [0, 5, 15 / 2, 10, 15]"
  by code_simp

lemma docstring_mask:
  "process_timespan_mask no_mask docstring_session None = docstring_session"
  by (simp add: process_timespan_mask_def)

text \<open>
  In the session of the docstring two synths stop at offset 15; their node ids, 1001 and
  1002, are in the one node-free command of the bundle made for that offset, the last one.
\<close>

theorem C6_node_free_witness:
  "to_osc_bundles insertion_order no_mask docstring_session None = Inr docstring_bundles \<and>
   (\<exists>x\<in>set (synths (process_timespan_mask no_mask docstring_session None)).
       stop_offset x = Some 15) \<and>
   length (filter (\<lambda>x. stop_offset x = Some 15)
             (synths (process_timespan_mask no_mask docstring_session None))) = 2 \<and>
   bundles_for 15 (bundle_offsets insertion_order no_mask docstring_session None)
     docstring_bundles = [docstring_bundles ! 4] \<and>
   commands_of NodeFree (docstring_bundles ! 4) =
     [OscMessage (Textual ''/n_free'') [OscInt 1001, OscInt 1002]] \<and>
   (\<exists>id_mapping.
       build_id_mapping (process_timespan_mask no_mask docstring_session None) =
         Inr id_mapping \<and>
       (\<exists>bundle ids.
           bundles_for 15 (bundle_offsets insertion_order no_mask docstring_session None)
             docstring_bundles = [bundle] \<and>
           float 15 = Inr (timestamp bundle) \<and>
           commands_of NodeFree bundle = [to_osc_message (NodeFreeRequest ids)] \<and>
           mset ids =
             mset (map (node_id_of id_mapping)
                    (filter (\<lambda>x. stop_offset x = Some 15)
                       (synths (process_timespan_mask no_mask docstring_session None))))))"
proof -
  have h: "\<exists>x\<in>set (synths (process_timespan_mask no_mask docstring_session None)).
       stop_offset x = Some 15"
    unfolding docstring_mask by (simp add: docstring_session_def)
  have l: "length (filter (\<lambda>x. stop_offset x = Some 15)
             (synths (process_timespan_mask no_mask docstring_session None))) = 2"
    unfolding docstring_mask by (simp add: docstring_session_def)
  have b: "bundles_for 15 (bundle_offsets insertion_order no_mask docstring_session None)
     docstring_bundles = [docstring_bundles ! 4]"
    unfolding docstring_session_offsets by (simp add: bundles_for_def docstring_bundles_def)
  have c: "commands_of NodeFree (docstring_bundles ! 4) =
     [OscMessage (Textual ''/n_free'') [OscInt 1001, OscInt 1002]]"
    by (simp add: commands_of_def docstring_bundles_def)
  from C6_node_free [OF docstring_session_bundles] obtain id_mapping where
    i: "build_id_mapping (process_timespan_mask no_mask docstring_session None) =
          Inr id_mapping"
    and a: "\<forall>offset.
              (\<exists>x\<in>set (synths (process_timespan_mask no_mask docstring_session None)).
                  stop_offset x = Some offset) \<longrightarrow>
              (\<exists>bundle ids.
                  bundles_for offset
                    (bundle_offsets insertion_order no_mask docstring_session None)
                    docstring_bundles = [bundle] \<and>
                  float offset = Inr (timestamp bundle) \<and>
                  commands_of NodeFree bundle = [to_osc_message (NodeFreeRequest ids)] \<and>
                  mset ids =
                    mset (map (node_id_of id_mapping)
                           (filter (\<lambda>x. stop_offset x = Some offset)
                              (synths (process_timespan_mask no_mask docstring_session None)))))"
    by blast
  from a [rule_format, OF h] have a15: "\<exists>bundle ids.
           bundles_for 15 (bundle_offsets insertion_order no_mask docstring_session None)
             docstring_bundles = [bundle] \<and>
           float 15 = Inr (timestamp bundle) \<and>
           commands_of NodeFree bundle = [to_osc_message (NodeFreeRequest ids)] \<and>
           mset ids =
             mset (map (node_id_of id_mapping)
                    (filter (\<lambda>x. stop_offset x = Some 15)
                       (synths (process_timespan_mask no_mask docstring_session None))))" .
  show ?thesis
    by (intro conjI exI [of _ id_mapping]) (rule docstring_session_bundles h l b c i a15)+
qed

section \<open>The addresses of a bus group\<close>

text \<open>
  C4 is right about what the assignment is for and the code misses it. The loop over the buses
  allocates a block of the length of the group for every member bus it meets, not one block
  for the group, and its inner loop over the block assigns every address of the block to that
  same bus, which keeps the last one. For a group of two control buses followed by a single
  control bus: the first member is allocated the block \<open>{0, 1}\<close> and ends at address 1, the
  second member is allocated the block \<open>{2, 3}\<close> and ends at address 3, the group is
  recorded at address 2, and the single bus gets address 4. The claim has one block
  \<open>{0, 1}\<close> for the group, its members at 0 and 1, and the single bus at 2.
\<close>

theorem C4_bus_group_blocks:
  "bus_ids_of group_session = Inr ([Some 1, Some 3, Some 4], [Some 2, Some 2, None])"
  by code_simp

section \<open>The node ids of the synths\<close>

lemma precedes_nth:
  assumes "i < j" "j < length zs"
  shows "precedes (zs ! i) (zs ! j) zs"
proof -
  have 1: "zs = take j zs @ zs ! j # drop (Suc j) zs"
    using assms by (simp add: id_take_nth_drop)
  have "i < length (take j zs)" using assms by simp
  then have "take j zs = take i (take j zs) @ take j zs ! i # drop (Suc i) (take j zs)"
    by (rule id_take_nth_drop)
  then have 2: "take j zs = take i zs @ zs ! i # drop (Suc i) (take j zs)"
    using assms by (simp add: min_def)
  have "zs = take i zs @ zs ! i # drop (Suc i) (take j zs) @ zs ! j # drop (Suc j) zs"
    using 1 2 by (metis append.assoc append_Cons)
  then show ?thesis unfolding precedes_def by blast
qed

lemma precedes_filter:
  "precedes x y zs \<Longrightarrow> P x \<Longrightarrow> P y \<Longrightarrow> precedes x y (filter P zs)"
  unfolding precedes_def by (metis filter.simps(2) filter_append)

lemma precedes_asym:
  assumes "distinct zs" "precedes x y zs"
  shows "\<not> precedes y x zs"
proof
  assume "precedes y x zs"
  then obtain us' vs' ws' where 2: "zs = us' @ y # vs' @ x # ws'"
    unfolding precedes_def by blast
  from assms(2) obtain us vs ws where 1: "zs = us @ x # vs @ y # ws"
    unfolding precedes_def by blast
  from assms(1) 1 have a: "x \<notin> set us" "y \<notin> set us" "x \<noteq> y" by auto
  from assms(1) 1 have b: "x \<notin> set (vs @ y # ws)" by auto
  have "us @ x # (vs @ y # ws) = (us' @ y # vs') @ x # ws'"
    using 1 2 by simp
  with append_Cons_eq_iff [OF a(1) b, where xs' = "us' @ y # vs'" and ys' = ws']
  have "us = us' @ y # vs'" by blast
  with a(2) show False by simp
qed

lemma precedes_total:
  assumes "x \<in> set zs" "y \<in> set zs" "x \<noteq> y"
  shows "precedes x y zs \<or> precedes y x zs"
proof -
  from assms(1) obtain us rest where 1: "zs = us @ x # rest"
    by (auto simp: in_set_conv_decomp)
  show ?thesis
  proof (cases "y \<in> set us")
    case True
    then obtain a b where "us = a @ y # b" by (auto simp: in_set_conv_decomp)
    with 1 have "zs = a @ y # b @ x # rest" by simp
    then show ?thesis unfolding precedes_def by blast
  next
    case False
    with assms 1 have "y \<in> set rest" by auto
    then obtain a b where "rest = a @ y # b" by (auto simp: in_set_conv_decomp)
    with 1 have "zs = us @ x # a @ y # b" by simp
    then show ?thesis unfolding precedes_def by blast
  qed
qed

lemma precedes_sorted:
  fixes f :: "'a \<Rightarrow> 'k::linorder"
  assumes "sorted (map f zs)" "precedes x y zs"
  shows "f x \<le> f y"
  using assms unfolding precedes_def by (auto simp: sorted_append)

lemma precedes_sort_key:
  fixes f :: "'a \<Rightarrow> 'k::linorder"
  assumes "distinct xs" "x \<in> set xs" "y \<in> set xs" "x \<noteq> y"
    and "f x < f y \<or> (f x = f y \<and> precedes x y xs)"
  shows "precedes x y (sort_key f xs)"
proof (rule ccontr)
  assume n: "\<not> precedes x y (sort_key f xs)"
  have "x \<in> set (sort_key f xs)" "y \<in> set (sort_key f xs)"
    using assms(2,3) by simp_all
  from precedes_total [OF this assms(4)] n
  have p: "precedes y x (sort_key f xs)" by blast
  have "sorted (map f (sort_key f xs))" by (rule sorted_sort_key)
  from precedes_sorted [OF this p] have le: "f y \<le> f x" .
  with assms(5) have eq: "f x = f y" and px: "precedes x y xs" by auto
  let ?P = "\<lambda>z. f z = f x"
  have Px: "?P x" and Py: "?P y" using eq by simp_all
  from precedes_filter [of y x "sort_key f xs" ?P, OF p Py Px]
  have "precedes y x (filter ?P (sort_key f xs))" .
  then have 1: "precedes y x (filter ?P xs)" by (simp only: sort_key_stable)
  from precedes_filter [of x y xs ?P, OF px Px Py]
  have 2: "precedes x y (filter ?P xs)" .
  have "distinct (filter ?P xs)" using assms(1) by simp
  from precedes_asym [OF this 2] 1 show False by blast
qed

subsection \<open>Node ids\<close>

lemma assign_node_ids_keep:
  "m k = Some v \<Longrightarrow> assign_node_ids ts a m k = Some v"
proof (induction ts arbitrary: a m)
  case Nil
  then show ?case by simp
next
  case (Cons t ts)
  show ?case
  proof (cases "m (SynthKey t) = None")
    case True
    with Cons.prems have "(m(SynthKey t \<mapsto> next_node_id a)) k = Some v" by auto
    then have "assign_node_ids ts (a\<lparr>next_node_id := next_node_id a + 1\<rparr>)
                 (m(SynthKey t \<mapsto> next_node_id a)) k = Some v"
      by (rule Cons.IH)
    with True show ?thesis
      by (simp add: allocate_node_id_def)
  next
    case False
    with Cons show ?thesis by auto
  qed
qed

lemma assign_node_ids_nth:
  assumes "distinct ts" "\<forall>t\<in>set ts. m (SynthKey t) = None" "i < length ts"
  shows "assign_node_ids ts a m (SynthKey (ts ! i)) = Some (next_node_id a + i)"
  using assms
proof (induction ts arbitrary: a m i)
  case Nil
  then show ?case by simp
next
  case (Cons t ts)
  let ?a = "a\<lparr>next_node_id := next_node_id a + 1\<rparr>"
  let ?m = "m(SynthKey t \<mapsto> next_node_id a)"
  from Cons.prems have e: "assign_node_ids (t # ts) a m = assign_node_ids ts ?a ?m"
    by (simp add: allocate_node_id_def)
  show ?case
  proof (cases i)
    case 0
    have "?m (SynthKey t) = Some (next_node_id a)" by simp
    then have "assign_node_ids ts ?a ?m (SynthKey t) = Some (next_node_id a)"
      by (rule assign_node_ids_keep)
    then show ?thesis
      unfolding e by (simp add: 0)
  next
    case (Suc j)
    from Cons.prems have "distinct ts" "\<forall>t'\<in>set ts. ?m (SynthKey t') = None" "j < length ts"
      by (auto simp: Suc)
    then have "assign_node_ids ts ?a ?m (SynthKey (ts ! j)) = Some (next_node_id ?a + j)"
      by (rule Cons.IH)
    then show ?thesis
      unfolding e by (simp add: Suc)
  qed
qed

lemma node_ids_in_order:
  assumes "distinct (synths s)"
  shows "map (node_id_of (build_synth_id_mapping s)) (sorted_timespans (synths s)) =
         [1000..<1000 + length (synths s)]"
proof (rule nth_equalityI)
  show "length (map (node_id_of (build_synth_id_mapping s)) (sorted_timespans (synths s))) =
        length [1000..<1000 + length (synths s)]"
    by (simp add: sorted_timespans_def)
next
  fix i
  assume "i < length (map (node_id_of (build_synth_id_mapping s)) (sorted_timespans (synths s)))"
  then have i: "i < length (sorted_timespans (synths s))" by simp
  have d: "distinct (sorted_timespans (synths s))"
    using assms by (simp add: sorted_timespans_def)
  have "\<forall>t\<in>set (sorted_timespans (synths s)). Map.empty (SynthKey t) = (None :: nat option)"
    by simp
  with d have "assign_node_ids (sorted_timespans (synths s)) NodeIdAllocator_init Map.empty
          (SynthKey (sorted_timespans (synths s) ! i)) =
        Some (next_node_id NodeIdAllocator_init + i)"
    using i by (rule assign_node_ids_nth)
  then have "build_synth_id_mapping s (SynthKey (sorted_timespans (synths s) ! i)) =
             Some (1000 + i)"
    by (simp add: build_synth_id_mapping_def NodeIdAllocator_init_def)
  then show "map (node_id_of (build_synth_id_mapping s)) (sorted_timespans (synths s)) ! i =
             [1000..<1000 + length (synths s)] ! i"
    using i by (simp add: node_id_of_def sorted_timespans_def)
qed

lemma node_id_precedes:
  assumes "distinct (synths s)" "precedes x y (sorted_timespans (synths s))"
  shows "node_id_of (build_synth_id_mapping s) x < node_id_of (build_synth_id_mapping s) y"
proof -
  let ?f = "node_id_of (build_synth_id_mapping s)"
  from assms(2) obtain us vs ws where
    o: "sorted_timespans (synths s) = us @ x # vs @ y # ws"
    unfolding precedes_def by blast
  have "map ?f (us @ x # vs @ y # ws) = [1000..<1000 + length (synths s)]"
    using node_ids_in_order [OF assms(1)] unfolding o .
  then have "sorted_wrt (<) (map ?f (us @ x # vs @ y # ws))"
    by (simp only: sorted_wrt_upt)
  then show ?thesis by (auto simp: sorted_wrt_append)
qed

text \<open>
  The model reproduces the output that the docstring of the class shows for its session.
\<close>

text \<open>
  C3. For a session whose collection holds each synth once, \<open>build_synth_id_mapping\<close>
  visits the synths ordered by start offset, synths with equal start offsets in declaration
  order, and gives them the consecutive ids of a counter that starts at 1000: the ids are
  strictly increasing along that order, no id is given twice, a synth that starts earlier has
  the smaller id, and of two synths with equal start offsets the one declared earlier has the
  smaller id, whatever their stop offsets.
\<close>

theorem C3_node_ids:
  assumes "distinct (synths s)"
  shows "map (node_id_of (build_synth_id_mapping s)) (sorted_timespans (synths s)) =
           [1000..<1000 + length (synths s)] \<and>
         sorted_wrt (<) (map (node_id_of (build_synth_id_mapping s))
                             (sorted_timespans (synths s))) \<and>
         inj_on (node_id_of (build_synth_id_mapping s)) (set (synths s)) \<and>
         (\<forall>x\<in>set (synths s). \<forall>y\<in>set (synths s).
            start_offset x < start_offset y \<longrightarrow>
            node_id_of (build_synth_id_mapping s) x < node_id_of (build_synth_id_mapping s) y) \<and>
         (\<forall>i j. i < j \<and> j < length (synths s) \<and>
            start_offset (synths s ! i) = start_offset (synths s ! j) \<longrightarrow>
            node_id_of (build_synth_id_mapping s) (synths s ! i) <
            node_id_of (build_synth_id_mapping s) (synths s ! j))"
proof (intro conjI ballI allI impI)
  let ?f = "node_id_of (build_synth_id_mapping s)"
  show 1: "map ?f (sorted_timespans (synths s)) = [1000..<1000 + length (synths s)]"
    by (rule node_ids_in_order [OF assms])
  show "sorted_wrt (<) (map ?f (sorted_timespans (synths s)))"
    unfolding 1 by simp
  have "distinct (map ?f (sorted_timespans (synths s)))" unfolding 1 by simp
  then have "inj_on ?f (set (sorted_timespans (synths s)))" by (simp add: distinct_map)
  then show "inj_on ?f (set (synths s))" by (simp add: sorted_timespans_def)
next
  fix x y
  assume "x \<in> set (synths s)" "y \<in> set (synths s)" "start_offset x < start_offset y"
  then have "precedes x y (sort_key start_offset (synths s))"
    using assms by (intro precedes_sort_key) auto
  then show "node_id_of (build_synth_id_mapping s) x < node_id_of (build_synth_id_mapping s) y"
    using node_id_precedes [OF assms] by (simp add: sorted_timespans_def)
next
  fix i j
  assume a: "i < j \<and> j < length (synths s) \<and>
            start_offset (synths s ! i) = start_offset (synths s ! j)"
  then have p: "precedes (synths s ! i) (synths s ! j) (synths s)"
    by (intro precedes_nth) auto
  have "synths s ! i \<noteq> synths s ! j"
    using a assms by (auto simp: distinct_conv_nth)
  then have "precedes (synths s ! i) (synths s ! j) (sort_key start_offset (synths s))"
    using a p assms by (intro precedes_sort_key) auto
  then show "node_id_of (build_synth_id_mapping s) (synths s ! i) <
             node_id_of (build_synth_id_mapping s) (synths s ! j)"
    using node_id_precedes [OF assms] by (simp add: sorted_timespans_def)
qed


theorem C3_node_ids_witness:
  "distinct (synths docstring_session) \<and>
   map (node_id_of (build_synth_id_mapping docstring_session))
       (sorted_timespans (synths docstring_session)) = [1000..<1000 + 3] \<and>
   start_offset (synths docstring_session ! 0) = start_offset (synths docstring_session ! 2) \<and>
   node_id_of (build_synth_id_mapping docstring_session) (synths docstring_session ! 0) <
   node_id_of (build_synth_id_mapping docstring_session) (synths docstring_session ! 2)"
proof -
  have d: "distinct (synths docstring_session)"
    by (simp add: docstring_session_def)
  have l: "length (synths docstring_session) = 3"
    by (simp add: docstring_session_def)
  have e: "start_offset (synths docstring_session ! 0) =
           start_offset (synths docstring_session ! 2)"
    by (simp add: docstring_session_def)
  note t = C3_node_ids [OF d]
  from t have 1: "map (node_id_of (build_synth_id_mapping docstring_session))
       (sorted_timespans (synths docstring_session)) = [1000..<1000 + 3]"
    unfolding l by (rule conjunct1)
  from t have "\<forall>i j. i < j \<and> j < length (synths docstring_session) \<and>
            start_offset (synths docstring_session ! i) =
            start_offset (synths docstring_session ! j) \<longrightarrow>
            node_id_of (build_synth_id_mapping docstring_session)
              (synths docstring_session ! i) <
            node_id_of (build_synth_id_mapping docstring_session)
              (synths docstring_session ! j)"
    by blast
  from this [rule_format, of 0 2] e l
  have 2: "node_id_of (build_synth_id_mapping docstring_session)
             (synths docstring_session ! 0) <
           node_id_of (build_synth_id_mapping docstring_session)
             (synths docstring_session ! 2)"
    by simp
  from d 1 e 2 show ?thesis by (intro conjI)
qed

section \<open>The definitions of the synths\<close>

subsection \<open>The first use of a definition\<close>

lemma first_start_offset_image:
  "first_start_offset s sd = Min (start_offset ` {x \<in> set (synths s). synthdef x = sd})"
  by (simp add: first_start_offset_def)

lemma note_start_events_known:
  "map_of d sd = Some v \<Longrightarrow> map_of (note_start_events es d) sd = Some v"
proof (induction es arbitrary: d)
  case Nil
  then show ?case by simp
next
  case (Cons e es)
  show ?case
  proof (cases "map_of d (synthdef e) = None")
    case True
    with Cons.prems have "synthdef e \<noteq> sd" by auto
    with Cons.prems
    have "map_of (AList.update (synthdef e) (start_offset e) d) sd = Some v"
      by (simp add: AList.update_conv')
    from Cons.IH [OF this] True show ?thesis by simp
  next
    case False
    with Cons.IH [OF Cons.prems] show ?thesis by simp
  qed
qed

lemma note_start_events_absent:
  "map_of d sd = None \<Longrightarrow> sd \<notin> synthdef ` set es \<Longrightarrow>
   map_of (note_start_events es d) sd = None"
proof (induction es arbitrary: d)
  case Nil
  then show ?case by simp
next
  case (Cons e es)
  from Cons.prems have ne: "synthdef e \<noteq> sd" and rest: "sd \<notin> synthdef ` set es" by auto
  show ?case
  proof (cases "map_of d (synthdef e) = None")
    case True
    from Cons.prems(1) ne
    have "map_of (AList.update (synthdef e) (start_offset e) d) sd = None"
      by (simp add: AList.update_conv')
    from Cons.IH [OF this rest] True show ?thesis by simp
  next
    case False
    with Cons.IH [OF Cons.prems(1) rest] show ?thesis by simp
  qed
qed

lemma note_start_events_new:
  "map_of d sd = None \<Longrightarrow> sd \<in> synthdef ` set es \<Longrightarrow>
   \<forall>e\<in>set es. start_offset e = offset \<Longrightarrow>
   map_of (note_start_events es d) sd = Some offset"
proof (induction es arbitrary: d)
  case Nil
  then show ?case by simp
next
  case (Cons e es)
  from Cons.prems(3) have off: "start_offset e = offset"
    and all: "\<forall>e\<in>set es. start_offset e = offset" by simp_all
  show ?case
  proof (cases "synthdef e = sd")
    case True
    with Cons.prems(1) off
    have "map_of (AList.update (synthdef e) (start_offset e) d) sd = Some offset"
      by (simp add: AList.update_conv')
    then have "map_of (note_start_events es (AList.update (synthdef e) (start_offset e) d)) sd
               = Some offset"
      by (rule note_start_events_known)
    with True Cons.prems(1) show ?thesis by simp
  next
    case False
    with Cons.prems(2) have rest: "sd \<in> synthdef ` set es" by auto
    show ?thesis
    proof (cases "map_of d (synthdef e) = None")
      case True
      from Cons.prems(1) False
      have "map_of (AList.update (synthdef e) (start_offset e) d) sd = None"
        by (simp add: AList.update_conv')
      from Cons.IH [OF this rest all] True show ?thesis by simp
    next
      case False
      with Cons.IH [OF Cons.prems(1) rest all] show ?thesis by simp
    qed
  qed
qed

lemma note_simultaneities_known:
  "map_of d sd = Some v \<Longrightarrow> map_of (note_simultaneities h sims d) sd = Some v"
proof (induction sims arbitrary: d)
  case Nil
  then show ?case by simp
next
  case (Cons sim sims)
  from Cons.prems
  have "map_of (note_start_events (set_iter (hash_synth h) (start_timespans sim)) d) sd = Some v"
    by (rule note_start_events_known)
  from Cons.IH [OF this] show ?case by simp
qed

lemma map_of_note_simultaneities:
  "map_of d sd = None \<Longrightarrow>
   map_of (note_simultaneities h (map (simultaneity_at ts) offsets) d) sd =
   first_use ts offsets sd"
proof (induction offsets arbitrary: d)
  case Nil
  then show ?case by simp
next
  case (Cons offset offsets)
  let ?es = "set_iter (hash_synth h) (start_timespans (simultaneity_at ts offset))"
  have s: "set ?es = {x \<in> set ts. start_offset x = offset}"
    by (auto simp: set_iter_def simultaneity_at_def)
  then have all: "\<forall>e\<in>set ?es. start_offset e = offset" by simp
  have i: "sd \<in> synthdef ` set ?es \<longleftrightarrow> list_ex (starts_with offset sd) ts"
    unfolding s by (auto simp: list_ex_iff starts_with_def)
  have u: "note_simultaneities h (map (simultaneity_at ts) (offset # offsets)) d =
           note_simultaneities h (map (simultaneity_at ts) offsets) (note_start_events ?es d)"
    by simp
  show ?case
  proof (cases "list_ex (starts_with offset sd) ts")
    case True
    with i have "sd \<in> synthdef ` set ?es" by simp
    from note_start_events_new [OF Cons.prems this all]
    have "map_of (note_simultaneities h (map (simultaneity_at ts) offsets)
            (note_start_events ?es d)) sd = Some offset"
      by (rule note_simultaneities_known)
    with True show ?thesis unfolding u by simp
  next
    case False
    with i have "sd \<notin> synthdef ` set ?es" by simp
    from Cons.IH [OF note_start_events_absent [OF Cons.prems this]] False
    show ?thesis unfolding u by simp
  qed
qed


lemma first_use_Min:
  assumes "sorted offsets"
  shows "first_use ts offsets sd =
         (if \<exists>x\<in>set ts. synthdef x = sd \<and> start_offset x \<in> set offsets
          then Some (Min (start_offset `
                  {x \<in> set ts. synthdef x = sd \<and> start_offset x \<in> set offsets}))
          else None)"
  using assms
proof (induction offsets)
  case Nil
  then show ?case by simp
next
  case (Cons offset offsets)
  let ?A = "\<lambda>os. start_offset ` {x \<in> set ts. synthdef x = sd \<and> start_offset x \<in> set os}"
  from Cons.prems have s: "sorted offsets" and le: "\<forall>k\<in>set offsets. offset \<le> k" by simp_all
  show ?case
  proof (cases "list_ex (starts_with offset sd) ts")
    case True
    then obtain x where x: "x \<in> set ts" "start_offset x = offset" "synthdef x = sd"
      by (auto simp: list_ex_iff starts_with_def)
    have "Min (?A (offset # offsets)) = offset"
    proof (rule Min_eqI)
      show "finite (?A (offset # offsets))" by simp
      show "offset \<in> ?A (offset # offsets)" using x by force
      show "\<And>y. y \<in> ?A (offset # offsets) \<Longrightarrow> offset \<le> y" using le by auto
    qed
    moreover have "\<exists>x\<in>set ts. synthdef x = sd \<and> start_offset x \<in> set (offset # offsets)"
      using x by auto
    moreover have "first_use ts (offset # offsets) sd = Some offset"
      using True by simp
    ultimately show ?thesis by (simp only: if_True)
  next
    case False
    then have n: "\<And>x. x \<in> set ts \<Longrightarrow> synthdef x = sd \<Longrightarrow> start_offset x \<noteq> offset"
      by (auto simp: list_ex_iff starts_with_def)
    then have e: "{x \<in> set ts. synthdef x = sd \<and> start_offset x \<in> set (offset # offsets)} =
               {x \<in> set ts. synthdef x = sd \<and> start_offset x \<in> set offsets}"
      by auto
    have c: "(\<exists>x\<in>set ts. synthdef x = sd \<and> start_offset x \<in> set (offset # offsets)) \<longleftrightarrow>
             (\<exists>x\<in>set ts. synthdef x = sd \<and> start_offset x \<in> set offsets)"
      using n by auto
    have "first_use ts (offset # offsets) sd = first_use ts offsets sd"
      using False by simp
    then show ?thesis
      by (simp only: Cons.IH [OF s] e c)
  qed
qed

lemma map_of_synthdefs_to_offsets:
  "map_of (synthdefs_to_offsets h s) sd =
   (if sd \<in> synthdef ` set (synths s) then Some (first_start_offset s sd) else None)"
proof -
  let ?offsets = "sort (remdups (map start_offset (synths s) @
                                  List.map_filter stop_offset (synths s)))"
  have i: "iterate_simultaneities (synths s) = map (simultaneity_at (synths s)) ?offsets"
    unfolding iterate_simultaneities_def
    by (rule map_cong [OF refl]) (simp add: simultaneity_at_def)
  have m: "\<And>x. x \<in> set (synths s) \<Longrightarrow> start_offset x \<in> set ?offsets" by simp
  then have e: "{x \<in> set (synths s). synthdef x = sd \<and> start_offset x \<in> set ?offsets} =
             {x \<in> set (synths s). synthdef x = sd}"
    by blast
  have c: "(\<exists>x\<in>set (synths s). synthdef x = sd \<and> start_offset x \<in> set ?offsets) \<longleftrightarrow>
           sd \<in> synthdef ` set (synths s)"
    using m by blast
  have so: "sorted ?offsets" by (rule sorted_sort)
  have "map_of [] sd = None" by simp
  then have "map_of (synthdefs_to_offsets h s) sd = first_use (synths s) ?offsets sd"
    unfolding synthdefs_to_offsets_def i by (rule map_of_note_simultaneities)
  also have "\<dots> = (if sd \<in> synthdef ` set (synths s)
                     then Some (first_start_offset s sd) else None)"
    by (simp only: first_use_Min [OF so] e c first_start_offset_image)
  finally show ?thesis .
qed

lemma synthdefs_to_offsets_Some:
  "map_of (synthdefs_to_offsets h s) sd = Some k \<longleftrightarrow>
   sd \<in> synthdef ` set (synths s) \<and> first_start_offset s sd = k"
  by (cases "sd \<in> synthdef ` set (synths s)") (simp_all add: map_of_synthdefs_to_offsets)

lemma synthdefs_to_offsets_mem:
  "(sd, k) \<in> set (synthdefs_to_offsets h s) \<longleftrightarrow>
   sd \<in> synthdef ` set (synths s) \<and> first_start_offset s sd = k"
  using map_of_eq_Some_iff [OF distinct_synthdefs_to_offsets, of h s sd k]
  by (simp only: synthdefs_to_offsets_Some)

subsection \<open>The definitions first used at an offset\<close>

lemma group_synthdefs_spec:
  "keys (group_synthdefs xs d) = keys d \<union> snd ` set xs \<and>
   (\<forall>offset. dict_get (group_synthdefs xs d) offset [] =
      dict_get d offset [] @ map fst (filter (\<lambda>p. snd p = offset) xs))"
proof (induction xs arbitrary: d)
  case Nil
  then show ?case by simp
next
  case (Cons p xs)
  obtain sd k where p: "p = (sd, k)" by (cases p)
  have k: "keys (group_synthdefs (p # xs) d) = keys d \<union> snd ` set (p # xs)"
    unfolding p group_synthdefs.simps
    by (simp add: Cons.IH [THEN conjunct1] keys_setdefault_extend)
  have g: "\<And>offset. dict_get (group_synthdefs (p # xs) d) offset [] =
      dict_get d offset [] @ map fst (filter (\<lambda>p. snd p = offset) (p # xs))"
    unfolding p group_synthdefs.simps
    by (simp add: Cons.IH [THEN conjunct2, rule_format] dict_get_setdefault_extend)
  from k g show ?case by blast
qed

lemma first_used_at_items:
  "first_used_at h s offset =
   map fst (filter (\<lambda>p. snd p = offset) (items (hash_synthdef h) (synthdefs_to_offsets h s)))"
  by (simp add: first_used_at_def offsets_to_synthdefs_def
        group_synthdefs_spec [THEN conjunct2, rule_format])

lemma distinct_first_used_at: "distinct (first_used_at h s offset)"
  unfolding first_used_at_items
  by (rule distinct_map_filter) (simp add: distinct_synthdefs_to_offsets)

lemma in_first_used_at:
  "sd \<in> set (first_used_at h s offset) \<longleftrightarrow>
   sd \<in> synthdef ` set (synths s) \<and> first_start_offset s sd = offset"
proof -
  have "sd \<in> set (first_used_at h s offset) \<longleftrightarrow> (sd, offset) \<in> set (synthdefs_to_offsets h s)"
    unfolding first_used_at_items by (force simp: image_iff)
  then show ?thesis by (simp only: synthdefs_to_offsets_mem)
qed

lemma keys_offsets_to_synthdefs:
  "keys (offsets_to_synthdefs h s) = first_start_offset s ` synthdef ` set (synths s)"
proof -
  let ?d1 = "synthdefs_to_offsets h s"
  have "keys (offsets_to_synthdefs h s) = snd ` set ?d1"
    by (simp add: offsets_to_synthdefs_def group_synthdefs_spec [THEN conjunct1])
  also have "\<dots> = first_start_offset s ` synthdef ` set (synths s)"
  proof (rule set_eqI)
    fix k
    have "k \<in> snd ` set ?d1 \<longleftrightarrow> (\<exists>sd. (sd, k) \<in> set ?d1)" by force
    also have "\<dots> \<longleftrightarrow> (\<exists>sd. sd \<in> synthdef ` set (synths s) \<and> first_start_offset s sd = k)"
      by (simp only: synthdefs_to_offsets_mem)
    also have "\<dots> \<longleftrightarrow> k \<in> first_start_offset s ` synthdef ` set (synths s)" by blast
    finally show "k \<in> snd ` set ?d1 \<longleftrightarrow> k \<in> first_start_offset s ` synthdef ` set (synths s)" .
  qed
  finally show ?thesis .
qed

lemma dict_get_synthdef_requests_at:
  "dict_get (synthdef_requests (offsets_to_synthdefs h s)) offset [] =
   (if offset \<in> first_start_offset s ` synthdef ` set (synths s)
    then [SynthDefReceiveRequest (sort_key anonymous_name (first_used_at h s offset))]
    else [])"
proof (cases "map_of (offsets_to_synthdefs h s) offset")
  case None
  then have "offset \<notin> keys (offsets_to_synthdefs h s)" by (simp add: map_of_eq_None_keys)
  then have "offset \<notin> first_start_offset s ` synthdef ` set (synths s)"
    by (simp only: keys_offsets_to_synthdefs not_False_eq_True)
  with None show ?thesis
    by (simp add: dict_get_synthdef_requests)
next
  case (Some sds)
  then have "offset \<in> keys (offsets_to_synthdefs h s)"
    using map_of_eq_None_keys [of "offsets_to_synthdefs h s" offset] by auto
  then have "offset \<in> first_start_offset s ` synthdef ` set (synths s)"
    by (simp only: keys_offsets_to_synthdefs)
  moreover have "first_used_at h s offset = sds"
    using Some by (simp add: first_used_at_def dict_get_def)
  ultimately show ?thesis
    using Some by (simp add: dict_get_synthdef_requests)
qed


subsection \<open>The commands that carry a definition\<close>

lemma receives_command_of: "receives sd m \<Longrightarrow> command_of m = Some DefinitionReceive"
  by (induction sd m rule: receives.induct) simp_all

lemma filter_receives:
  "filter (receives sd) (contents b) = filter (receives sd) (commands_of DefinitionReceive b)"
  unfolding commands_of_def filter_filter
  by (rule filter_cong [OF refl]) (auto dest: receives_command_of)

lemma received_at:
  "filter (receives sd)
     (map to_osc_message (dict_get (synthdef_requests (offsets_to_synthdefs h s)) k [])) =
   (if sd \<in> synthdef ` set (synths s) \<and> first_start_offset s sd = k
    then [OscMessage (Textual ''/d_recv'')
            [OscBlob (sort_key anonymous_name (first_used_at h s k))]]
    else [])"
proof (cases "k \<in> first_start_offset s ` synthdef ` set (synths s)")
  case True
  then show ?thesis
    by (simp add: dict_get_synthdef_requests_at in_first_used_at)
next
  case False
  then have "\<not> (sd \<in> synthdef ` set (synths s) \<and> first_start_offset s sd = k)"
    by blast
  with False show ?thesis
    by (simp only: dict_get_synthdef_requests_at if_False list.map filter.simps)
qed

lemma concat_map_at:
  "distinct xs \<Longrightarrow>
   concat (map (\<lambda>j. if j = k then ys else []) xs) = (if k \<in> set xs then ys else [])"
  by (induction xs) auto


lemma received_in_bundle:
  assumes "\<forall>k. dict_get rm k [] =
       dict_get (bus_requests events_by_offset) k [] @
       dict_get (synthdef_requests (offsets_to_synthdefs h s)) k [] @
       synth_requests_at id_mapping xs k"
    and "sd \<in> synthdef ` set (synths s)"
  shows "filter (receives sd) (contents (bundle_of k (dict_get rm k []))) =
         (if k = first_start_offset s sd
          then [OscMessage (Textual ''/d_recv'')
                  [OscBlob (sort_key anonymous_name
                      (first_used_at h s (first_start_offset s sd)))]]
          else [])"
proof -
  have "requests_by_type (dict_get rm k []) SynthDefReceiveRequestType =
        dict_get (synthdef_requests (offsets_to_synthdefs h s)) k []"
    by (simp add: assms(1) [rule_format] bus_requests_by_type synthdef_requests_by_type)
  then have "filter (receives sd) (contents (bundle_of k (dict_get rm k []))) =
        filter (receives sd)
          (map to_osc_message (dict_get (synthdef_requests (offsets_to_synthdefs h s)) k []))"
    by (simp only: filter_receives definition_receive_commands)
  also have "\<dots> = (if k = first_start_offset s sd
          then [OscMessage (Textual ''/d_recv'')
                  [OscBlob (sort_key anonymous_name
                      (first_used_at h s (first_start_offset s sd)))]]
          else [])"
    unfolding received_at using assms(2) by auto
  finally show ?thesis .
qed

text \<open>
  C2. In the bundles returned for a session, for every synth of the rendered session, exactly
  one command of the whole sequence is a definition-receive command that carries the
  definition of the synth. It is in the one bundle made for the earliest offset at which a
  synth with this definition starts, whose timestamp is the float of that offset, and it lists
  every definition once.
\<close>

theorem C2_definition_received_once:
  assumes "to_osc_bundles h ops s timespan = Inr bs"
    and "x \<in> set (synths (process_timespan_mask ops s timespan))"
  shows "\<exists>b sds.
           bundles_for (first_start_offset (process_timespan_mask ops s timespan) (synthdef x))
             (bundle_offsets h ops s timespan) bs = [b] \<and>
           float (first_start_offset (process_timespan_mask ops s timespan) (synthdef x)) =
             Inr (timestamp b) \<and>
           filter (receives (synthdef x)) (contents b) =
             [OscMessage (Textual ''/d_recv'') [OscBlob sds]] \<and>
           filter (receives (synthdef x)) (concat (map contents bs)) =
             [OscMessage (Textual ''/d_recv'') [OscBlob sds]] \<and>
           distinct sds \<and> synthdef x \<in> set sds"
proof -
  let ?s = "process_timespan_mask ops s timespan"
  let ?sd = "synthdef x"
  let ?k0 = "first_start_offset ?s ?sd"
  let ?sds = "sort_key anonymous_name (first_used_at h ?s ?k0)"
  let ?m = "OscMessage (Textual ''/d_recv'') [OscBlob ?sds]"
  let ?b = "\<lambda>rm k. bundle_of k (dict_get rm k [])"
  from assms(1) obtain rm id_mapping events_by_offset where
    bs: "bs = map (\<lambda>k. bundle_of k (dict_get rm k [])) (sorted_list_of_set (keys rm)) @
          terminal_bundles (Max (keys rm)) timespan"
    and keys: "keys rm = keys events_by_offset \<union> keys (offsets_to_synthdefs h ?s) \<union>
       (\<Union>x\<in>set (synths ?s). keys (requests_of_synth (node_id_of id_mapping x) x))"
    and g: "\<forall>k. dict_get rm k [] =
       dict_get (bus_requests events_by_offset) k [] @
       dict_get (synthdef_requests (offsets_to_synthdefs h ?s)) k [] @
       synth_requests_at id_mapping (sorted_synths id_mapping ?s) k"
    and o: "bundle_offsets h ops s timespan = sorted_list_of_set (keys rm)"
    and f: "\<forall>k\<in>keys rm. float k = Inr (of_rat (nearest_double k))"
    by (rule to_osc_bundles_parts)
  have fin: "finite (keys rm)" by (simp add: keys_def)
  from assms(2) have used: "?sd \<in> synthdef ` set (synths ?s)" by (rule imageI)
  then have "?k0 \<in> keys (offsets_to_synthdefs h ?s)"
    unfolding keys_offsets_to_synthdefs by (rule imageI)
  with keys have k0: "?k0 \<in> keys rm" by blast
  note r = received_in_bundle [OF g used]
  have 1: "bundles_for ?k0 (bundle_offsets h ops s timespan) bs = [?b rm ?k0]"
    unfolding o using bs k0 by (rule bundles_for_key)
  from f k0 have 0: "float ?k0 = Inr (timestamp (?b rm ?k0))" by simp
  have 2: "filter (receives ?sd) (contents (?b rm ?k0)) = [?m]"
    by (simp only: r refl if_True)
  have t: "concat (map (\<lambda>b. filter (receives ?sd) (contents b))
             (terminal_bundles (Max (keys rm)) timespan)) = []"
    by (auto dest: terminal_bundles_contents)
  have "filter (receives ?sd) (concat (map contents bs)) =
        concat (map (\<lambda>b. filter (receives ?sd) (contents b)) bs)"
    by (simp add: filter_concat comp_def)
  also have "\<dots> = concat (map (\<lambda>k. filter (receives ?sd) (contents (?b rm k)))
                        (sorted_list_of_set (keys rm)))"
    unfolding bs by (simp add: t comp_def)
  also have "\<dots> = concat (map (\<lambda>k. if k = ?k0 then [?m] else [])
                        (sorted_list_of_set (keys rm)))"
    by (simp only: r)
  also have "\<dots> = [?m]"
    using k0 fin by (simp add: concat_map_at)
  finally have 3: "filter (receives ?sd) (concat (map contents bs)) = [?m]" .
  have 4: "distinct ?sds"
    by (simp add: distinct_first_used_at)
  have 5: "?sd \<in> set ?sds"
    using used by (simp add: in_first_used_at)
  show ?thesis
    by (intro exI conjI) (rule 1 0 2 3 4 5)+
qed

lemma overlap_session_bundles:
  "to_osc_bundles insertion_order no_mask overlap_session None = Inr overlap_bundles"
  by code_simp

lemma overlap_mask: "process_timespan_mask no_mask overlap_session None = overlap_session"
  by (simp add: process_timespan_mask_def)

theorem C2_definition_received_once_witness:
  "to_osc_bundles insertion_order no_mask overlap_session None = Inr overlap_bundles \<and>
   synths overlap_session ! 1
     \<in> set (synths (process_timespan_mask no_mask overlap_session None)) \<and>
   start_offset (synths overlap_session ! 1) = 5 \<and>
   synthdef (synths overlap_session ! 1) = example_synthdef \<and>
   first_start_offset (process_timespan_mask no_mask overlap_session None)
     (synthdef (synths overlap_session ! 1)) = 0 \<and>
   (\<exists>b sds.
       bundles_for (first_start_offset (process_timespan_mask no_mask overlap_session None)
                     (synthdef (synths overlap_session ! 1)))
         (bundle_offsets insertion_order no_mask overlap_session None) overlap_bundles = [b] \<and>
       float (first_start_offset (process_timespan_mask no_mask overlap_session None)
                (synthdef (synths overlap_session ! 1))) = Inr (timestamp b) \<and>
       filter (receives (synthdef (synths overlap_session ! 1))) (contents b) =
         [OscMessage (Textual ''/d_recv'') [OscBlob sds]] \<and>
       filter (receives (synthdef (synths overlap_session ! 1)))
           (concat (map contents overlap_bundles)) =
         [OscMessage (Textual ''/d_recv'') [OscBlob sds]] \<and>
       distinct sds \<and> synthdef (synths overlap_session ! 1) \<in> set sds)"
proof -
  have x: "synths overlap_session ! 1
             \<in> set (synths (process_timespan_mask no_mask overlap_session None))"
    unfolding overlap_mask by (simp add: overlap_session_def add_synth_def Session_init_def)
  have o: "start_offset (synths overlap_session ! 1) = 5"
    by (simp add: overlap_session_def add_synth_def Session_init_def)
  have d: "synthdef (synths overlap_session ! 1) = example_synthdef"
    by (simp add: overlap_session_def add_synth_def Session_init_def)
  have f: "first_start_offset (process_timespan_mask no_mask overlap_session None)
             (synthdef (synths overlap_session ! 1)) = 0"
    unfolding overlap_mask by code_simp
  note c = C2_definition_received_once [OF overlap_session_bundles x]
  show ?thesis
    by (intro conjI) (rule overlap_session_bundles x o d f c)+
qed

section \<open>The order of the hash containers\<close>
















end
